theory Spec2Isabelle
  imports Main
begin

section \<open>Strings\<close>

text \<open>
  A JavaScript string is modelled as a \<^typ>\<open>string\<close>: a list of 8-bit characters, read as
  the code units U+0000 to U+00FF. Strings holding a code unit above U+00FF are outside
  the model.
\<close>

definition startsWith :: "string \<Rightarrow> string \<Rightarrow> bool" where
  "startsWith s p = (take (length p) s = p)"

section \<open>Regular expressions\<close>

text \<open>
  The patterns of \<^verbatim>\<open>wombat_setup.js\<close> are written as terms of \<open>re\<close>. Only the
  constructs these patterns use are modelled: literal characters, the dot, character
  classes (with the escapes \<^verbatim>\<open>\d\<close> and \<^verbatim>\<open>\w\<close>), sequence, alternation,
  the greedy and lazy star, capture groups, a lookbehind over a single character class,
  and the two anchors (without the multiline flag).
\<close>

datatype item = Ch char | Digit | WordCh

datatype re =
    Lit string
  | Cls bool "item list"
  | Cat re re
  | Alt re re
  | Star bool re
  | Grp nat re
  | Behind bool "item list"
  | Bol
  | Eol

definition is_digit :: "char \<Rightarrow> bool" where
  "is_digit c = (c \<in> set ''0123456789'')"

definition is_alpha :: "char \<Rightarrow> bool" where
  "is_alpha c = (c \<in> set ''abcdefghijklmnopqrstuvwxyzABCDEFGHIJKLMNOPQRSTUVWXYZ'')"

fun in_item :: "item \<Rightarrow> char \<Rightarrow> bool" where
  "in_item (Ch c) x = (x = c)"
| "in_item Digit x = is_digit x"
| "in_item WordCh x = (is_alpha x \<or> is_digit x \<or> x = CHR ''_'')"

text \<open>\<open>in_cls neg items x\<close>: the class \<^verbatim>\<open>[...]\<close> (\<open>neg = False\<close>) or
  \<^verbatim>\<open>[^...]\<close> (\<open>neg = True\<close>) holds \<open>x\<close>.\<close>

definition in_cls :: "bool \<Rightarrow> item list \<Rightarrow> char \<Rightarrow> bool" where
  "in_cls neg items x = (list_ex (\<lambda>i. in_item i x) items \<noteq> neg)"

text \<open>The dot matches every character but a line terminator: of the code units up to
  U+00FF these are LF and CR.\<close>

definition Dot :: re where
  "Dot = Cls True [Ch (CHR 0x0A), Ch (CHR 0x0D)]"

definition Eps :: re where
  "Eps = Lit []"

text \<open>\<^verbatim>\<open>r+\<close> is \<^verbatim>\<open>rr*\<close> and \<^verbatim>\<open>r?\<close> is \<^verbatim>\<open>r|\<close> (both greedy); no
  quantified pattern of the file holds a capture group or matches the empty string.\<close>

definition Plus :: "re \<Rightarrow> re" where
  "Plus r = Cat r (Star True r)"

definition Opt :: "re \<Rightarrow> re" where
  "Opt r = Alt r Eps"

fun cat :: "re list \<Rightarrow> re" where
  "cat [] = Eps"
| "cat [r] = r"
| "cat (r # rs) = Cat r (cat rs)"

type_synonym caps = "nat \<rightharpoonup> string"

text \<open>
  \<open>matches r p s c\<close> lists, in the order in which the backtracking matcher of
  ECMAScript finds them, the ways in which \<open>r\<close> matches at the start of \<open>s\<close>, where
  \<open>p\<close> is the text before \<open>s\<close> reversed and \<open>c\<close> the captures so far. Each is the text
  consumed, the text left, and the captures. The first element is the match the
  backtracking matcher returns. An iteration of a star that consumes nothing is
  rejected, as \<^verbatim>\<open>RepeatMatcher\<close> does.
\<close>

function matches :: "re \<Rightarrow> string \<Rightarrow> string \<Rightarrow> caps \<Rightarrow> (string \<times> string \<times> caps) list" where
  "matches (Lit l) p s c = (if take (length l) s = l then [(l, drop (length l) s, c)] else [])"
| "matches (Cls neg items) p s c =
     (case s of [] \<Rightarrow> [] | x # xs \<Rightarrow> if in_cls neg items x then [([x], xs, c)] else [])"
| "matches (Cat a b) p s c =
     concat (map (\<lambda>(w1, s1, c1).
       map (\<lambda>(w2, s2, c2). (w1 @ w2, s2, c2)) (matches b (rev w1 @ p) s1 c1))
       (matches a p s c))"
| "matches (Alt a b) p s c = matches a p s c @ matches b p s c"
| "matches (Star greedy a) p s c =
     (let more = concat (map (\<lambda>(w1, s1, c1).
            if length s1 < length s
            then map (\<lambda>(w2, s2, c2). (w1 @ w2, s2, c2)) (matches (Star greedy a) (rev w1 @ p) s1 c1)
            else [])
            (matches a p s c))
      in if greedy then more @ [([], s, c)] else ([], s, c) # more)"
| "matches (Grp n a) p s c = map (\<lambda>(w, s', c'). (w, s', c'(n \<mapsto> w))) (matches a p s c)"
| "matches (Behind neg items) p s c =
     (case p of [] \<Rightarrow> [] | x # xs \<Rightarrow> if in_cls neg items x then [([], s, c)] else [])"
| "matches Bol p s c = (if p = [] then [([], s, c)] else [])"
| "matches Eol p s c = (if s = [] then [([], s, c)] else [])"
  by pat_completeness auto
termination
  by (relation "measures [\<lambda>(r, p, s, c). size r, \<lambda>(r, p, s, c). length s]") auto

text \<open>\<open>regexp_exec r p s\<close>: the first position at or after the start of \<open>s\<close> where \<open>r\<close>
  matches, as \<^verbatim>\<open>RegExpBuiltinExec\<close> advances \<^verbatim>\<open>lastIndex\<close>; the result is the text
  before the match, the match, the text after it and the captures.\<close>

fun regexp_exec :: "re \<Rightarrow> string \<Rightarrow> string \<Rightarrow> (string \<times> string \<times> string \<times> caps) option" where
  "regexp_exec r p s =
     (case matches r p s Map.empty of
        (w, s', c) # _ \<Rightarrow> Some (rev p, w, s', c)
      | [] \<Rightarrow> (case s of [] \<Rightarrow> None | x # xs \<Rightarrow> regexp_exec r (x # p) xs))"

text \<open>A replacement template: literal text and \<^verbatim>\<open>$n\<close>. A group that did not take part
  in the match is replaced by the empty string.\<close>

datatype titem = TLit string | TGrp nat

fun expand :: "titem list \<Rightarrow> caps \<Rightarrow> string" where
  "expand [] c = []"
| "expand (TLit l # t) c = l @ expand t c"
| "expand (TGrp n # t) c = (case c n of None \<Rightarrow> [] | Some w \<Rightarrow> w) @ expand t c"

text \<open>\<^verbatim>\<open>String.prototype.replace\<close> with a regular expression without the global flag:
  the first match is replaced, the rest of the string is kept.\<close>

definition replace :: "re \<Rightarrow> titem list \<Rightarrow> string \<Rightarrow> string" where
  "replace r t s =
     (case regexp_exec r [] s of
        None \<Rightarrow> s
      | Some (before, w, after, c) \<Rightarrow> before @ expand t c @ after)"

section \<open>The fuzzy rules\<close>

record rule =
  match :: re
  replace_by :: "titem list"

definition www_youtube :: re where
  "www_youtube = cat [Opt (Lit ''www.''), Lit ''youtube'', Opt (Lit ''-nocookie''), Lit ''.com/'']"

definition rule1 :: rule where
  "rule1 = \<lparr> match = cat [Star True Dot, Lit ''googlevideo'', Dot, Lit ''com/'',
                 Grp 1 (Lit ''videoplayback?''), Star True Dot,
                 Grp 2 (cat [Behind False [Ch CHR ''?'', Ch CHR ''&''], Lit ''id='',
                             Plus (Cls True [Ch CHR ''&''])]),
                 Star True Dot],
             replace_by = [TLit ''youtube.fuzzy.replayweb.page/'', TGrp 1, TGrp 2] \<rparr>"

definition rule2 :: rule where
  "rule2 = \<lparr> match = cat [www_youtube, Grp 1 (Lit ''get_video_info?''), Star True Dot,
                 Grp 2 (cat [Lit ''video_id='', Plus (Cls True [Ch CHR ''&''])]),
                 Star True Dot],
             replace_by = [TLit ''youtube.fuzzy.replayweb.page/'', TGrp 1, TGrp 2] \<rparr>"

definition rule3 :: rule where
  "rule3 = \<lparr> match = cat [Grp 1 (cat [Lit ''.'', Plus (Cls True [Ch CHR ''?'']), Lit ''?'']),
                 Plus (Cls False [Digit]), Eol],
             replace_by = [TGrp 1] \<rparr>"

definition rule4 :: rule where
  "rule4 = \<lparr> match = cat [www_youtube,
                 Grp 1 (cat [Lit ''youtubei/'', Plus (Cls True [Ch CHR ''?''])]), Star True Dot,
                 Grp 2 (cat [Lit ''videoId'', Plus (Cls True [Ch CHR ''&''])]),
                 Star True Dot],
             replace_by = [TLit ''youtube.fuzzy.replayweb.page/'', TGrp 1, TLit ''?'', TGrp 2] \<rparr>"

definition rule5 :: rule where
  "rule5 = \<lparr> match = cat [www_youtube, Lit ''embed/'', Grp 1 (Plus (Cls True [Ch CHR ''?''])),
                 Star True Dot],
             replace_by = [TLit ''youtube.fuzzy.replayweb.page/embed/'', TGrp 1] \<rparr>"

definition rule6 :: rule where
  "rule6 = \<lparr> match = cat [Lit ''youtube'', Dot, Lit ''fuzzy'', Dot, Lit ''replayweb'', Dot,
                 Lit ''page/embed/'', Grp 1 (Plus (Cls True [Ch CHR ''?'', Ch CHR ''&''])),
                 Star True Dot],
             replace_by = [TLit ''youtube.fuzzy.replayweb.page/embed/'', TGrp 1] \<rparr>"

definition rule7 :: rule where
  "rule7 = \<lparr> match = cat [Star True Dot,
                 Alt (Lit ''gcs-vimeo'') (Alt (Lit ''vod'') (Lit ''vod-progressive'')),
                 Lit ''.akamaized.net'', Star False Dot, Lit ''/'',
                 Grp 1 (cat [Plus (Cls False [Digit, Ch CHR ''/'']), Dot, Lit ''mp4'']), Eol],
             replace_by = [TLit ''vimeo-cdn.fuzzy.replayweb.page/'', TGrp 1] \<rparr>"

definition rule8 :: rule where
  "rule8 = \<lparr> match = cat [Star True Dot, Lit ''player'', Dot, Lit ''vimeo'', Dot, Lit ''com/'',
                 Grp 1 (cat [Lit ''video/'', Plus (Cls False [Digit])]), Lit ''?'', Star True Dot],
             replace_by = [TLit ''vimeo.fuzzy.replayweb.page/'', TGrp 1] \<rparr>"

definition fuzzy_rules :: "rule list" where
  "fuzzy_rules = [rule1, rule2, rule3, rule4, rule5, rule6, rule7, rule8]"

definition apply_rule :: "rule \<Rightarrow> string \<Rightarrow> string" where
  "apply_rule r path = replace (match r) (replace_by r) path"

text \<open>The loop of \<^verbatim>\<open>reduce\<close> over a list of rules.\<close>

fun reduce_loop :: "rule list \<Rightarrow> string \<Rightarrow> string" where
  "reduce_loop [] path = path"
| "reduce_loop (r # rs) path =
     (let new_path = apply_rule r path
      in if new_path \<noteq> path then new_path else reduce_loop rs path)"

definition reduce :: "string \<Rightarrow> string" where
  "reduce path = reduce_loop fuzzy_rules path"

section \<open>URLs\<close>

text \<open>
  \<^verbatim>\<open>URL\<close> and \<^verbatim>\<open>encodeURIComponent\<close> are built into the platform. They are
  modelled here from the URL Standard (WHATWG) and from ECMA-262: the URL record, the
  basic URL parser as one function for each state of its state machine, the serializer,
  and the getters and setters that \<^verbatim>\<open>wombat_setup.js\<close> calls. A pointer that the
  standard moves back is a state that is entered on the same input.

  The host parser is modelled for ASCII domains and IPv4 addresses. For an IPv6 address,
  for a domain with a character outside ASCII (also when it is percent-encoded) and for
  a domain with a label that starts with \<^verbatim>\<open>xn--\<close> the model answers \<open>OutOfModel\<close>:
  the standard parses them with algorithms that are not modelled. The percent-encode
  sets are those of the living standard (the path set holds U+005E), and a space in an
  opaque path is kept as it is and removed from the end of the path when the query is
  set to null.
\<close>

datatype error = TypeError | OutOfModel

datatype host = DomainName string | Ipv4 nat | OpaqueHost string | EmptyHost

datatype upath = Opaque string | Segs "string list"

record url =
  u_scheme :: string
  u_username :: string
  u_password :: string
  u_host :: "host option"
  u_port :: "nat option"
  u_path :: upath
  u_query :: "string option"
  u_fragment :: "string option"

definition empty_url :: url where
  "empty_url = \<lparr> u_scheme = [], u_username = [], u_password = [], u_host = None,
     u_port = None, u_path = Segs [], u_query = None, u_fragment = None \<rparr>"

subsection \<open>Characters and percent-encoding\<close>

definition code :: "char \<Rightarrow> nat" where
  "code c = of_char c"

definition ascii_lower :: "char \<Rightarrow> char" where
  "ascii_lower c =
     (case map_of (zip ''ABCDEFGHIJKLMNOPQRSTUVWXYZ'' ''abcdefghijklmnopqrstuvwxyz'') c of
        None \<Rightarrow> c | Some l \<Rightarrow> l)"

definition is_alnum :: "char \<Rightarrow> bool" where
  "is_alnum c = (is_alpha c \<or> is_digit c)"

definition is_hex :: "char \<Rightarrow> bool" where
  "is_hex c = (c \<in> set ''0123456789abcdefABCDEF'')"

definition hex_val :: "char \<Rightarrow> nat" where
  "hex_val c =
     (case map_of (zip ''0123456789abcdefABCDEF''
         [0, 1, 2, 3, 4, 5, 6, 7, 8, 9, 10, 11, 12, 13, 14, 15, 10, 11, 12, 13, 14, 15]) c of
        None \<Rightarrow> 0 | Some v \<Rightarrow> v)"

definition hex_digit :: "nat \<Rightarrow> char" where
  "hex_digit n = ''0123456789ABCDEF'' ! n"

definition pct_byte :: "nat \<Rightarrow> string" where
  "pct_byte b = [CHR ''%'', hex_digit (b div 16), hex_digit (b mod 16)]"

text \<open>The UTF-8 bytes of a code point up to U+00FF.\<close>

definition utf8 :: "char \<Rightarrow> nat list" where
  "utf8 c = (if code c < 128 then [code c] else [192 + code c div 64, 128 + code c mod 64])"

definition pct :: "(char \<Rightarrow> bool) \<Rightarrow> char \<Rightarrow> string" where
  "pct encode_set c = (if encode_set c then concat (map pct_byte (utf8 c)) else [c])"

definition c0_set :: "char \<Rightarrow> bool" where
  "c0_set c = (code c \<le> 31 \<or> code c > 126)"

definition fragment_set :: "char \<Rightarrow> bool" where
  "fragment_set c = (c0_set c \<or> c \<in> set [CHR '' '', CHR 0x22, CHR ''<'', CHR ''>'', CHR 0x60])"

definition query_set :: "char \<Rightarrow> bool" where
  "query_set c = (c0_set c \<or> c \<in> set [CHR '' '', CHR 0x22, CHR ''#'', CHR ''<'', CHR ''>''])"

definition special_query_set :: "char \<Rightarrow> bool" where
  "special_query_set c = (query_set c \<or> c = CHR 0x27)"

definition path_set :: "char \<Rightarrow> bool" where
  "path_set c = (query_set c \<or> c \<in> set [CHR ''?'', CHR ''^'', CHR 0x60, CHR ''{'', CHR ''}''])"

definition userinfo_set :: "char \<Rightarrow> bool" where
  "userinfo_set c = (path_set c \<or> c \<in> set [CHR ''/'', CHR '':'', CHR '';'', CHR ''='', CHR ''@'',
     CHR ''['', CHR 0x5C, CHR '']'', CHR ''|''])"

text \<open>\<^verbatim>\<open>encodeURIComponent\<close>: every character is percent-encoded but the letters, the
  digits and \<^verbatim>\<open>- _ . ! ~ * ' ( )\<close>.\<close>

definition uri_unreserved :: "char \<Rightarrow> bool" where
  "uri_unreserved c = (is_alnum c \<or> c \<in> set [CHR ''-'', CHR ''_'', CHR ''.'', CHR ''!'', CHR ''~'',
     CHR ''*'', CHR 0x27, CHR ''('', CHR '')''])"

definition encodeURIComponent :: "string \<Rightarrow> string" where
  "encodeURIComponent s = concat (map (pct (\<lambda>c. \<not> uri_unreserved c)) s)"

fun percent_decode :: "string \<Rightarrow> nat list" where
  "percent_decode (c # h # l # cs) =
     (if c = CHR ''%'' \<and> is_hex h \<and> is_hex l then (16 * hex_val h + hex_val l) # percent_decode cs
      else code c # percent_decode (h # l # cs))"
| "percent_decode (c # cs) = code c # percent_decode cs"
| "percent_decode [] = []"

subsection \<open>Numbers\<close>

definition digits_val :: "nat \<Rightarrow> string \<Rightarrow> nat" where
  "digits_val radix s = foldl (\<lambda>a c. radix * a + hex_val c) 0 s"

function dec :: "nat \<Rightarrow> string" where
  "dec n = (if n < 10 then [hex_digit n] else dec (n div 10) @ [hex_digit (n mod 10)])"
  by pat_completeness auto
termination
  by (relation "measure id") auto

fun split_on :: "char \<Rightarrow> string \<Rightarrow> string list" where
  "split_on d [] = [[]]"
| "split_on d (c # cs) =
     (if c = d then [] # split_on d cs
      else (case split_on d cs of [] \<Rightarrow> [[c]] | x # xs \<Rightarrow> (c # x) # xs))"

subsection \<open>Hosts\<close>

definition forbidden_host :: "char \<Rightarrow> bool" where
  "forbidden_host c = (c \<in> set [CHR 0x00, CHR 0x09, CHR 0x0A, CHR 0x0D, CHR '' '', CHR ''#'',
     CHR ''/'', CHR '':'', CHR ''<'', CHR ''>'', CHR ''?'', CHR ''@'', CHR ''['', CHR 0x5C,
     CHR '']'', CHR ''^'', CHR ''|''])"

definition forbidden_domain :: "char \<Rightarrow> bool" where
  "forbidden_domain c = (forbidden_host c \<or> code c \<le> 31 \<or> c = CHR ''%'' \<or> code c = 127)"

text \<open>The IPv4 number parser: the number, or \<open>None\<close> for failure.\<close>

definition ipv4_number :: "string \<Rightarrow> nat option" where
  "ipv4_number s =
     (if s = [] then None
      else let (radix, ds) =
             (if length s \<ge> 2 \<and> (take 2 s = ''0x'' \<or> take 2 s = ''0X'') then (16, drop 2 s)
              else if length s \<ge> 2 \<and> hd s = CHR ''0'' then (8, tl s)
              else (10, s))
           in if ds = [] then Some 0
              else if list_all (\<lambda>c. is_hex c \<and> hex_val c < radix) ds then Some (digits_val radix ds)
              else None)"

definition ipv4_parts :: "string \<Rightarrow> string list" where
  "ipv4_parts s =
     (let parts = split_on CHR ''.'' s
      in if last parts = [] \<and> length parts > 1 then butlast parts else parts)"

definition ends_in_number :: "string \<Rightarrow> bool" where
  "ends_in_number s =
     (let parts = split_on CHR ''.'' s
      in if last parts = [] \<and> length parts = 1 then False
         else let l = last (if last parts = [] then butlast parts else parts)
              in (l \<noteq> [] \<and> list_all is_digit l) \<or> ipv4_number l \<noteq> None)"

definition ipv4_parse :: "string \<Rightarrow> error + host" where
  "ipv4_parse s =
     (let parts = ipv4_parts s
      in if length parts > 4 then Inl TypeError
         else let numbers = map ipv4_number parts
              in if list_ex (\<lambda>n. n = None) numbers then Inl TypeError
                 else let ns = map the numbers
                      in if list_ex (\<lambda>n. n > 255) (butlast ns) then Inl TypeError
                         else if last ns \<ge> 256 ^ (5 - length ns) then Inl TypeError
                         else Inr (Ipv4 (last ns +
                                foldr (+) (map (\<lambda>(n, i). n * 256 ^ (3 - i))
                                             (zip (butlast ns) [0 ..< length ns - 1])) 0)))"

definition opaque_host_parse :: "string \<Rightarrow> error + host" where
  "opaque_host_parse s =
     (if list_ex forbidden_host s then Inl TypeError
      else if s = [] then Inr EmptyHost
      else Inr (OpaqueHost (concat (map (pct c0_set) s))))"

definition domain_parse :: "string \<Rightarrow> error + host" where
  "domain_parse s =
     (let bytes = percent_decode s
      in if list_ex (\<lambda>b. b \<ge> 128) bytes then Inl OutOfModel
         else let domain = map char_of bytes
              in if list_ex (\<lambda>l. map ascii_lower (take 4 l) = ''xn--'') (split_on CHR ''.'' domain)
                 then Inl OutOfModel
                 else let ascii_domain = map ascii_lower domain
                      in if ascii_domain = [] then Inl TypeError
                         else if list_ex forbidden_domain ascii_domain then Inl TypeError
                         else if ends_in_number ascii_domain then ipv4_parse ascii_domain
                         else Inr (DomainName ascii_domain))"

text \<open>The host parser; \<open>opaque\<close> holds for a URL that is not special.\<close>

definition host_parse :: "bool \<Rightarrow> string \<Rightarrow> error + host" where
  "host_parse opaque s =
     (if s \<noteq> [] \<and> hd s = CHR ''['' then (if last s \<noteq> CHR '']'' then Inl TypeError else Inl OutOfModel)
      else if opaque then opaque_host_parse s
      else domain_parse s)"

definition serialize_host :: "host \<Rightarrow> string" where
  "serialize_host h =
     (case h of
        DomainName d \<Rightarrow> d
      | Ipv4 n \<Rightarrow> dec (n div 16777216) @ ''.'' @ dec (n div 65536 mod 256) @ ''.'' @
                  dec (n div 256 mod 256) @ ''.'' @ dec (n mod 256)
      | OpaqueHost s \<Rightarrow> s
      | EmptyHost \<Rightarrow> [])"

subsection \<open>Schemes and paths\<close>

definition is_special :: "string \<Rightarrow> bool" where
  "is_special sch = (sch \<in> set [''ftp'', ''file'', ''http'', ''https'', ''ws'', ''wss''])"

definition default_port :: "string \<Rightarrow> nat option" where
  "default_port sch = map_of [(''ftp'', 21), (''http'', 80), (''https'', 443), (''ws'', 80), (''wss'', 443)] sch"

definition segs :: "url \<Rightarrow> string list" where
  "segs u = (case u_path u of Segs l \<Rightarrow> l | Opaque _ \<Rightarrow> [])"

definition has_opaque_path :: "url \<Rightarrow> bool" where
  "has_opaque_path u = (case u_path u of Segs _ \<Rightarrow> False | Opaque _ \<Rightarrow> True)"

definition single_dot :: "string \<Rightarrow> bool" where
  "single_dot s = (map ascii_lower s \<in> set [''.'', ''%2e''])"

definition double_dot :: "string \<Rightarrow> bool" where
  "double_dot s = (map ascii_lower s \<in> set [''..'', ''.%2e'', ''%2e.'', ''%2e%2e''])"

definition windows_drive_letter :: "string \<Rightarrow> bool" where
  "windows_drive_letter s =
     (case s of [a, b] \<Rightarrow> is_alpha a \<and> (b = CHR '':'' \<or> b = CHR ''|'') | _ \<Rightarrow> False)"

definition normalized_drive_letter :: "string \<Rightarrow> bool" where
  "normalized_drive_letter s = (case s of [a, b] \<Rightarrow> is_alpha a \<and> b = CHR '':'' | _ \<Rightarrow> False)"

definition starts_with_drive_letter :: "string \<Rightarrow> bool" where
  "starts_with_drive_letter s =
     (windows_drive_letter (take 2 s) \<and>
      (length s = 2 \<or> (length s > 2 \<and> s ! 2 \<in> set [CHR ''/'', CHR 0x5C, CHR ''?'', CHR ''#''])))"

definition shorten :: "string \<Rightarrow> string list \<Rightarrow> string list" where
  "shorten sch p =
     (if sch = ''file'' \<and> length p = 1 \<and> normalized_drive_letter (hd p) then p else butlast p)"

subsection \<open>The states of the basic URL parser\<close>

definition fragment_state :: "url \<Rightarrow> string \<Rightarrow> error + url" where
  "fragment_state u cs = Inr (u\<lparr>u_fragment := Some (concat (map (pct fragment_set) cs))\<rparr>)"

definition query_state :: "url \<Rightarrow> string \<Rightarrow> error + url" where
  "query_state u cs =
     (let qset = (if is_special (u_scheme u) then special_query_set else query_set);
          u' = u\<lparr>u_query := Some (concat (map (pct qset) (takeWhile (\<lambda>c. c \<noteq> CHR ''#'') cs)))\<rparr>
      in case dropWhile (\<lambda>c. c \<noteq> CHR ''#'') cs of
           [] \<Rightarrow> Inr u'
         | _ # fs \<Rightarrow> fragment_state u' fs)"

text \<open>What the path state does with its buffer at the end of a segment; \<open>slash\<close> holds
  when the segment ends at a slash.\<close>

definition add_segment :: "url \<Rightarrow> string \<Rightarrow> bool \<Rightarrow> url" where
  "add_segment u buf slash =
     (if double_dot buf then
        (let p = shorten (u_scheme u) (segs u)
         in u\<lparr>u_path := Segs (if slash then p else p @ [[]])\<rparr>)
      else if single_dot buf then
        (if slash then u else u\<lparr>u_path := Segs (segs u @ [[]])\<rparr>)
      else u\<lparr>u_path := Segs (segs u @
             [if u_scheme u = ''file'' \<and> segs u = [] \<and> windows_drive_letter buf
              then [hd buf, CHR '':''] else buf])\<rparr>)"

definition is_slash :: "url \<Rightarrow> char \<Rightarrow> bool" where
  "is_slash u c = (c = CHR ''/'' \<or> (is_special (u_scheme u) \<and> c = CHR 0x5C))"

text \<open>\<open>ovr\<close> holds when the parser runs with a state override (the \<^verbatim>\<open>pathname\<close>
  setter).\<close>

fun path_state :: "bool \<Rightarrow> url \<Rightarrow> string \<Rightarrow> string \<Rightarrow> error + url" where
  "path_state ovr u buf [] = Inr (add_segment u buf False)"
| "path_state ovr u buf (c # cs) =
     (if is_slash u c then path_state ovr (add_segment u buf True) [] cs
      else if \<not> ovr \<and> c = CHR ''?'' then query_state ((add_segment u buf False)\<lparr>u_query := Some []\<rparr>) cs
      else if \<not> ovr \<and> c = CHR ''#'' then fragment_state ((add_segment u buf False)\<lparr>u_fragment := Some []\<rparr>) cs
      else path_state ovr u (buf @ pct path_set c) cs)"

definition path_start_state :: "bool \<Rightarrow> url \<Rightarrow> string \<Rightarrow> error + url" where
  "path_start_state ovr u cs =
     (if is_special (u_scheme u) then
        (case cs of
           [] \<Rightarrow> path_state ovr u [] []
         | c # cs' \<Rightarrow> if c = CHR ''/'' \<or> c = CHR 0x5C then path_state ovr u [] cs'
                      else path_state ovr u [] cs)
      else
        (case cs of
           [] \<Rightarrow> if ovr \<and> u_host u = None then Inr (u\<lparr>u_path := Segs (segs u @ [[]])\<rparr>) else Inr u
         | c # cs' \<Rightarrow>
             if \<not> ovr \<and> c = CHR ''?'' then query_state (u\<lparr>u_query := Some []\<rparr>) cs'
             else if \<not> ovr \<and> c = CHR ''#'' then fragment_state (u\<lparr>u_fragment := Some []\<rparr>) cs'
             else if c = CHR ''/'' then path_state ovr u [] cs'
             else path_state ovr u [] cs))"

definition opaque_path_state :: "url \<Rightarrow> string \<Rightarrow> error + url" where
  "opaque_path_state u cs =
     (let stop = (\<lambda>c. c \<noteq> CHR ''?'' \<and> c \<noteq> CHR ''#'');
          u' = u\<lparr>u_path := Opaque (concat (map (pct c0_set) (takeWhile stop cs)))\<rparr>
      in case dropWhile stop cs of
           [] \<Rightarrow> Inr u'
         | c # cs' \<Rightarrow> if c = CHR ''?'' then query_state (u'\<lparr>u_query := Some []\<rparr>) cs'
                      else fragment_state (u'\<lparr>u_fragment := Some []\<rparr>) cs')"

text \<open>The characters that end the authority, the host and the port.\<close>

definition ends_authority :: "url \<Rightarrow> char \<Rightarrow> bool" where
  "ends_authority u c =
     (c \<in> set [CHR ''/'', CHR ''?'', CHR ''#''] \<or> (is_special (u_scheme u) \<and> c = CHR 0x5C))"

definition port_done :: "url \<Rightarrow> string \<Rightarrow> string \<Rightarrow> error + url" where
  "port_done u buf cs =
     (if buf = [] then path_start_state False u cs
      else let p = digits_val 10 buf
           in if p > 65535 then Inl TypeError
              else path_start_state False
                     (u\<lparr>u_port := (if default_port (u_scheme u) = Some p then None else Some p)\<rparr>) cs)"

fun port_state :: "url \<Rightarrow> string \<Rightarrow> string \<Rightarrow> error + url" where
  "port_state u buf [] = port_done u buf []"
| "port_state u buf (c # cs) =
     (if is_digit c then port_state u (buf @ [c]) cs
      else if ends_authority u c then port_done u buf (c # cs)
      else Inl TypeError)"

definition host_done :: "url \<Rightarrow> string \<Rightarrow> string \<Rightarrow> error + url" where
  "host_done u buf cs =
     (if is_special (u_scheme u) \<and> buf = [] then Inl TypeError
      else case host_parse (\<not> is_special (u_scheme u)) buf of
             Inl e \<Rightarrow> Inl e
           | Inr h \<Rightarrow> path_start_state False (u\<lparr>u_host := Some h\<rparr>) cs)"

fun host_state :: "url \<Rightarrow> string \<Rightarrow> bool \<Rightarrow> string \<Rightarrow> error + url" where
  "host_state u buf inside [] = host_done u buf []"
| "host_state u buf inside (c # cs) =
     (if c = CHR '':'' \<and> \<not> inside then
        (if buf = [] then Inl TypeError
         else case host_parse (\<not> is_special (u_scheme u)) buf of
                Inl e \<Rightarrow> Inl e
              | Inr h \<Rightarrow> port_state (u\<lparr>u_host := Some h\<rparr>) [] cs)
      else if ends_authority u c then host_done u buf (c # cs)
      else host_state u (buf @ [c])
             (if c = CHR ''['' then True else if c = CHR '']'' then False else inside) cs)"

text \<open>The authority state at \<^verbatim>\<open>@\<close>: the buffer goes to the username and, after the
  first colon, to the password.\<close>

fun credentials :: "url \<Rightarrow> bool \<Rightarrow> string \<Rightarrow> url \<times> bool" where
  "credentials u pw [] = (u, pw)"
| "credentials u pw (c # cs) =
     (if c = CHR '':'' \<and> \<not> pw then credentials u True cs
      else if pw then credentials (u\<lparr>u_password := u_password u @ pct userinfo_set c\<rparr>) pw cs
      else credentials (u\<lparr>u_username := u_username u @ pct userinfo_set c\<rparr>) pw cs)"

definition authority_done :: "url \<Rightarrow> string \<Rightarrow> bool \<Rightarrow> string \<Rightarrow> error + url" where
  "authority_done u buf at_seen cs =
     (if at_seen \<and> buf = [] then Inl TypeError else host_state u [] False (buf @ cs))"

fun authority_state :: "url \<Rightarrow> string \<Rightarrow> bool \<Rightarrow> bool \<Rightarrow> string \<Rightarrow> error + url" where
  "authority_state u buf at_seen pw [] = authority_done u buf at_seen []"
| "authority_state u buf at_seen pw (c # cs) =
     (if c = CHR ''@'' then
        (case credentials u pw (if at_seen then ''%40'' @ buf else buf) of
           (u', pw') \<Rightarrow> authority_state u' [] True pw' cs)
      else if ends_authority u c then authority_done u buf at_seen (c # cs)
      else authority_state u (buf @ [c]) at_seen pw cs)"

definition special_authority_ignore_slashes_state :: "url \<Rightarrow> string \<Rightarrow> error + url" where
  "special_authority_ignore_slashes_state u cs =
     authority_state u [] False False (dropWhile (\<lambda>c. c = CHR ''/'' \<or> c = CHR 0x5C) cs)"

definition special_authority_slashes_state :: "url \<Rightarrow> string \<Rightarrow> error + url" where
  "special_authority_slashes_state u cs =
     (if take 2 cs = ''//'' then special_authority_ignore_slashes_state u (drop 2 cs)
      else special_authority_ignore_slashes_state u cs)"

definition path_or_authority_state :: "url \<Rightarrow> string \<Rightarrow> error + url" where
  "path_or_authority_state u cs =
     (case cs of
        [] \<Rightarrow> path_state False u [] []
      | c # cs' \<Rightarrow> if c = CHR ''/'' then authority_state u [] False False cs'
                   else path_state False u [] cs)"

definition copy_authority :: "url \<Rightarrow> url \<Rightarrow> url" where
  "copy_authority b u = u\<lparr>u_username := u_username b, u_password := u_password b,
     u_host := u_host b, u_port := u_port b\<rparr>"

definition relative_slash_state :: "url \<Rightarrow> url \<Rightarrow> string \<Rightarrow> error + url" where
  "relative_slash_state b u cs =
     (case cs of
        [] \<Rightarrow> path_state False (copy_authority b u) [] []
      | c # cs' \<Rightarrow>
          if is_special (u_scheme u) \<and> (c = CHR ''/'' \<or> c = CHR 0x5C)
          then special_authority_ignore_slashes_state u cs'
          else if c = CHR ''/'' then authority_state u [] False False cs'
          else path_state False (copy_authority b u) [] cs)"

definition relative_state :: "url \<Rightarrow> string \<Rightarrow> error + url" where
  "relative_state b cs =
     (let u = empty_url\<lparr>u_scheme := u_scheme b\<rparr>;
          ub = (copy_authority b u)\<lparr>u_path := u_path b, u_query := u_query b\<rparr>
      in case cs of
           [] \<Rightarrow> Inr ub
         | c # cs' \<Rightarrow>
             if c = CHR ''/'' \<or> (is_special (u_scheme u) \<and> c = CHR 0x5C) then relative_slash_state b u cs'
             else if c = CHR ''?'' then query_state (ub\<lparr>u_query := Some []\<rparr>) cs'
             else if c = CHR ''#'' then fragment_state (ub\<lparr>u_fragment := Some []\<rparr>) cs'
             else path_state False
                    (ub\<lparr>u_query := None, u_path := Segs (shorten (u_scheme ub) (segs ub))\<rparr>) [] cs)"

fun file_host_state :: "url \<Rightarrow> string \<Rightarrow> string \<Rightarrow> error + url" where
  "file_host_state u buf cs =
     (if cs = [] \<or> hd cs \<in> set [CHR ''/'', CHR 0x5C, CHR ''?'', CHR ''#''] then
        (if windows_drive_letter buf then path_state False u buf cs
         else if buf = [] then path_start_state False (u\<lparr>u_host := Some EmptyHost\<rparr>) cs
         else case host_parse False buf of
                Inl e \<Rightarrow> Inl e
              | Inr h \<Rightarrow> path_start_state False
                          (u\<lparr>u_host := Some (if h = DomainName ''localhost'' then EmptyHost else h)\<rparr>) cs)
      else file_host_state u (buf @ [hd cs]) (tl cs))"

definition file_base :: "url option \<Rightarrow> url option" where
  "file_base base = (case base of None \<Rightarrow> None | Some b \<Rightarrow> if u_scheme b = ''file'' then Some b else None)"

definition file_slash_state :: "url option \<Rightarrow> url \<Rightarrow> string \<Rightarrow> error + url" where
  "file_slash_state base u cs =
     (if cs \<noteq> [] \<and> (hd cs = CHR ''/'' \<or> hd cs = CHR 0x5C) then file_host_state u [] (tl cs)
      else case file_base base of
             None \<Rightarrow> path_state False u [] cs
           | Some b \<Rightarrow>
               path_state False
                 (u\<lparr>u_host := u_host b,
                    u_path := (if \<not> starts_with_drive_letter cs \<and> segs b \<noteq> [] \<and>
                                  normalized_drive_letter (hd (segs b))
                               then Segs [hd (segs b)] else u_path u)\<rparr>) [] cs)"

definition file_state :: "url option \<Rightarrow> string \<Rightarrow> error + url" where
  "file_state base cs =
     (let u = empty_url\<lparr>u_scheme := ''file'', u_host := Some EmptyHost\<rparr>
      in if cs \<noteq> [] \<and> (hd cs = CHR ''/'' \<or> hd cs = CHR 0x5C) then file_slash_state base u (tl cs)
         else case file_base base of
                None \<Rightarrow> path_state False u [] cs
              | Some b \<Rightarrow>
                  (let ub = u\<lparr>u_host := u_host b, u_path := u_path b, u_query := u_query b\<rparr>
                   in case cs of
                        [] \<Rightarrow> Inr ub
                      | c # cs' \<Rightarrow>
                          if c = CHR ''?'' then query_state (ub\<lparr>u_query := Some []\<rparr>) cs'
                          else if c = CHR ''#'' then fragment_state (ub\<lparr>u_fragment := Some []\<rparr>) cs'
                          else path_state False
                                 (ub\<lparr>u_query := None,
                                     u_path := Segs (if starts_with_drive_letter cs then []
                                                     else shorten ''file'' (segs ub))\<rparr>) [] cs))"

definition no_scheme_state :: "url option \<Rightarrow> string \<Rightarrow> error + url" where
  "no_scheme_state base cs =
     (case base of
        None \<Rightarrow> Inl TypeError
      | Some b \<Rightarrow>
          if has_opaque_path b then
            (case cs of
               [] \<Rightarrow> Inl TypeError
             | c # cs' \<Rightarrow>
                 if c = CHR ''#''
                 then fragment_state (empty_url\<lparr>u_scheme := u_scheme b, u_path := u_path b,
                        u_query := u_query b, u_fragment := Some []\<rparr>) cs'
                 else Inl TypeError)
          else if u_scheme b \<noteq> ''file'' then relative_state b cs
          else file_state base cs)"

definition special_relative_or_authority_state :: "url \<Rightarrow> url \<Rightarrow> string \<Rightarrow> error + url" where
  "special_relative_or_authority_state b u cs =
     (if take 2 cs = ''//'' then special_authority_ignore_slashes_state u (drop 2 cs)
      else relative_state b cs)"

text \<open>The scheme state at the colon: \<open>sch\<close> is the scheme read, \<open>cs\<close> what follows it.\<close>

definition after_scheme :: "url option \<Rightarrow> string \<Rightarrow> string \<Rightarrow> error + url" where
  "after_scheme base sch cs =
     (let u = empty_url\<lparr>u_scheme := sch\<rparr>
      in if sch = ''file'' then file_state base cs
         else if is_special sch then
           (case base of
              None \<Rightarrow> special_authority_slashes_state u cs
            | Some b \<Rightarrow> if u_scheme b = sch then special_relative_or_authority_state b u cs
                        else special_authority_slashes_state u cs)
         else if cs \<noteq> [] \<and> hd cs = CHR ''/'' then path_or_authority_state u (tl cs)
         else opaque_path_state u cs)"

definition scheme_char :: "char \<Rightarrow> bool" where
  "scheme_char c = (is_alnum c \<or> c \<in> set [CHR ''+'', CHR ''-'', CHR ''.''])"

text \<open>\<open>inp\<close> is the whole input: without a scheme the parser starts over.\<close>

fun scheme_state :: "url option \<Rightarrow> string \<Rightarrow> string \<Rightarrow> string \<Rightarrow> error + url" where
  "scheme_state base inp buf [] = no_scheme_state base inp"
| "scheme_state base inp buf (c # cs) =
     (if scheme_char c then scheme_state base inp (buf @ [ascii_lower c]) cs
      else if c = CHR '':'' then after_scheme base buf cs
      else no_scheme_state base inp)"

definition scheme_start_state :: "url option \<Rightarrow> string \<Rightarrow> error + url" where
  "scheme_start_state base inp =
     (case inp of
        [] \<Rightarrow> no_scheme_state base inp
      | c # cs \<Rightarrow> if is_alpha c then scheme_state base inp [ascii_lower c] cs
                  else no_scheme_state base inp)"

definition c0_or_space :: "char \<Rightarrow> bool" where
  "c0_or_space c = (code c \<le> 32)"

definition tab_or_newline :: "char \<Rightarrow> bool" where
  "tab_or_newline c = (c \<in> set [CHR 0x09, CHR 0x0A, CHR 0x0D])"

definition basic_url_parser :: "string \<Rightarrow> url option \<Rightarrow> error + url" where
  "basic_url_parser inp base =
     scheme_start_state base
       (filter (\<lambda>c. \<not> tab_or_newline c)
          (rev (dropWhile c0_or_space (rev (dropWhile c0_or_space inp)))))"

subsection \<open>The \<^verbatim>\<open>URL\<close> class\<close>

text \<open>\<^verbatim>\<open>new URL(url, base)\<close>; \<open>base = None\<close> when no base is given.\<close>

definition URL_new :: "string \<Rightarrow> string option \<Rightarrow> error + url" where
  "URL_new s base =
     (case base of
        None \<Rightarrow> basic_url_parser s None
      | Some b \<Rightarrow> (case basic_url_parser b None of
                     Inl e \<Rightarrow> Inl e
                   | Inr pb \<Rightarrow> basic_url_parser s (Some pb)))"

definition pathname :: "url \<Rightarrow> string" where
  "pathname u = (case u_path u of Opaque p \<Rightarrow> p | Segs l \<Rightarrow> concat (map (\<lambda>s. CHR ''/'' # s) l))"

definition search :: "url \<Rightarrow> string" where
  "search u = (case u_query u of None \<Rightarrow> [] | Some q \<Rightarrow> if q = [] then [] else CHR ''?'' # q)"

text \<open>The URL serializer: \<^verbatim>\<open>toString()\<close> and \<^verbatim>\<open>href\<close>.\<close>

definition href :: "url \<Rightarrow> string" where
  "href u =
     u_scheme u @ '':'' @
     (case u_host u of
        None \<Rightarrow> (if \<not> has_opaque_path u \<and> length (segs u) > 1 \<and> hd (segs u) = [] then ''/.'' else [])
      | Some h \<Rightarrow>
          ''//'' @
          (if u_username u \<noteq> [] \<or> u_password u \<noteq> []
           then u_username u @ (if u_password u \<noteq> [] then '':'' @ u_password u else []) @ ''@''
           else []) @
          serialize_host h @
          (case u_port u of None \<Rightarrow> [] | Some p \<Rightarrow> '':'' @ dec p)) @
     pathname u @
     (case u_query u of None \<Rightarrow> [] | Some q \<Rightarrow> ''?'' @ q) @
     (case u_fragment u of None \<Rightarrow> [] | Some f \<Rightarrow> ''#'' @ f)"

text \<open>The \<^verbatim>\<open>pathname\<close> setter: the parser runs on the value from the path start state,
  on the URL with its path emptied.\<close>

definition set_pathname :: "url \<Rightarrow> string \<Rightarrow> url" where
  "set_pathname u v =
     (if has_opaque_path u then u
      else case path_start_state True (u\<lparr>u_path := Segs []\<rparr>) (filter (\<lambda>c. \<not> tab_or_newline c) v) of
             Inl e \<Rightarrow> u
           | Inr u' \<Rightarrow> u')"

text \<open>The \<^verbatim>\<open>search\<close> setter, for the empty string.\<close>

definition clear_search :: "url \<Rightarrow> url" where
  "clear_search u =
     (let u' = u\<lparr>u_query := None\<rparr>
      in case u_path u' of
           Segs l \<Rightarrow> u'
         | Opaque p \<Rightarrow> if u_fragment u' = None
                       then u'\<lparr>u_path := Opaque (rev (dropWhile (\<lambda>c. c = CHR '' '') (rev p)))\<rparr>
                       else u')"

section \<open>The rewrite function\<close>

record wombat_context =
  current_url :: string
  orig_host :: string
  orig_scheme :: string
  orig_url :: string
  prefix :: string

definition passthrough_prefixes :: "string list" where
  "passthrough_prefixes =
     [''#'', ''about:'', ''data:'', ''blob:'', ''mailto:'', ''javascript:'', ''{'', ''*'']"

text \<open>Lines 92 to 103: the absolute URL.\<close>

definition absolute_url :: "wombat_context \<Rightarrow> string \<Rightarrow> error + string" where
  "absolute_url ctx url =
     (if startsWith url ''//'' then Inr (orig_scheme ctx @ url)
      else if startsWith url ''/'' then
        (case URL_new url (Some (orig_url ctx)) of Inl e \<Rightarrow> Inl e | Inr u \<Rightarrow> Inr (href u))
      else
        (case URL_new url (Some (current_url ctx)) of Inl e \<Rightarrow> Inl e | Inr u \<Rightarrow> Inr (href u)))"

text \<open>The pattern \<^verbatim>\<open>/^\w+:?\/\//i\<close>. It holds no letter, and without the unicode flag
  \<^verbatim>\<open>\w\<close> is the same class with and without the flag \<^verbatim>\<open>i\<close>.\<close>

definition scheme_re :: re where
  "scheme_re = cat [Bol, Plus (Cls False [WordCh]), Opt (Lit '':''), Lit ''//'']"

text \<open>Lines 105 to 114: the entry's path.\<close>

definition entry_path :: "wombat_context \<Rightarrow> string \<Rightarrow> string" where
  "entry_path ctx a =
     (if startsWith a (prefix ctx) then drop (length (prefix ctx)) a
      else replace scheme_re [] a)"

text \<open>Lines 123 to 127: the query goes into the path.\<close>

definition fold_query :: "url \<Rightarrow> url" where
  "fold_query u =
     (if search u \<noteq> [] then clear_search (set_pathname u (pathname u @ encodeURIComponent (search u)))
      else u)"

text \<open>Lines 120 to 129.\<close>

definition final_url :: "wombat_context \<Rightarrow> string \<Rightarrow> error + string" where
  "final_url ctx reduced_path =
     (case URL_new (prefix ctx @ reduced_path) None of
        Inl e \<Rightarrow> Inl e
      | Inr u \<Rightarrow> Inr (href (fold_query u)))"

text \<open>
  \<^verbatim>\<open>urlRewriteFunction\<close>. The argument \<open>url\<close> is \<open>None\<close> for \<^verbatim>\<open>null\<close>; the result is
  the value returned, or the error thrown.
\<close>

definition urlRewriteFunction ::
  "wombat_context \<Rightarrow> string option \<Rightarrow> 'a \<Rightarrow> 'b \<Rightarrow> 'c \<Rightarrow> error + string option" where
  "urlRewriteFunction ctx url useRel mod' doc =
     (case url of
        None \<Rightarrow> Inr None
      | Some s \<Rightarrow>
          if s = [] then Inr (Some s)
          else if startsWith s (orig_host ctx) then Inr (Some s)
          else if list_ex (startsWith s) passthrough_prefixes then Inr (Some s)
          else (case absolute_url ctx s of
                  Inl e \<Rightarrow> Inl e
                | Inr a \<Rightarrow>
                    (case final_url ctx (reduce (entry_path ctx a)) of
                       Inl e \<Rightarrow> Inl e
                     | Inr r \<Rightarrow> Inr (Some r))))"

section \<open>Notions used in the statements and proofs\<close>

text \<open>The inputs that lines 71 to 90 return as they are.\<close>

definition passthrough :: "wombat_context \<Rightarrow> string \<Rightarrow> bool" where
  "passthrough ctx s =
     (s = [] \<or> startsWith s (orig_host ctx) \<or> list_ex (startsWith s) passthrough_prefixes)"

text \<open>The context of the scenario in the specification, and the same context served
  from an absolute URL.\<close>

definition ctx_spec :: wombat_context where
  "ctx_spec = \<lparr> current_url = ''https://example.com/v'', orig_host = ''https://example.com'',
     orig_scheme = ''https:'', orig_url = ''https://example.com/v'',
     prefix = ''/archive/20230101/'' \<rparr>"

definition ctx_served :: wombat_context where
  "ctx_served = ctx_spec\<lparr>prefix := ''http://localhost/archive/20230101/''\<rparr>"

text \<open>\<open>factor f s\<close>: the string \<open>f\<close> occurs in \<open>s\<close>.\<close>

fun factor :: "string \<Rightarrow> string \<Rightarrow> bool" where
  "factor f [] = (f = [])"
| "factor f (x # xs) = (take (length f) (x # xs) = f \<or> factor f xs)"

text \<open>\<open>exact r\<close>: the one string that \<open>r\<close> can match, when the shape of \<open>r\<close> shows
  one. \<open>starts r\<close>: a string that every match of \<open>r\<close> starts with.\<close>

fun exact :: "re \<Rightarrow> string option" where
  "exact (Lit l) = Some l"
| "exact (Grp n a) = exact a"
| "exact (Cat a b) = (case exact a of None \<Rightarrow> None
     | Some x \<Rightarrow> (case exact b of None \<Rightarrow> None | Some y \<Rightarrow> Some (x @ y)))"
| "exact r = None"

fun starts :: "re \<Rightarrow> string" where
  "starts (Lit l) = l"
| "starts (Grp n a) = starts a"
| "starts (Cat a b) = (case exact a of None \<Rightarrow> starts a | Some x \<Rightarrow> x @ starts b)"
| "starts r = []"

text \<open>\<open>needs f r\<close>: a sufficient condition for every match of \<open>r\<close> to hold \<open>f\<close>.\<close>

fun needs :: "string \<Rightarrow> re \<Rightarrow> bool" where
  "needs f (Lit l) = factor f l"
| "needs f (Cat a b) =
     (needs f a \<or> needs f b \<or>
      (case exact a of None \<Rightarrow> False | Some x \<Rightarrow> factor f (x @ starts b)))"
| "needs f (Alt a b) = (needs f a \<and> needs f b)"
| "needs f (Grp n a) = needs f a"
| "needs f r = False"

text \<open>
  A family of strings: fixed characters, and stretches of any length whose characters
  lie in a class. \<open>conc ss s\<close>: the string \<open>s\<close> is of the family \<open>ss\<close>.
  \<open>can_occur f ss\<close>: a necessary condition for \<open>f\<close> to occur in a string of the
  family.
\<close>

datatype seg = Fix char | Rep "char \<Rightarrow> bool"

fun conc :: "seg list \<Rightarrow> string \<Rightarrow> bool" where
  "conc [] s = (s = [])"
| "conc (Fix d # ss) s = (\<exists>t. s = d # t \<and> conc ss t)"
| "conc (Rep k # ss) s = (\<exists>u t. s = u @ t \<and> list_all k u \<and> conc ss t)"

fun pre_match :: "string \<Rightarrow> seg list \<Rightarrow> bool" where
  "pre_match [] ss = True"
| "pre_match (c # cs) [] = False"
| "pre_match (c # cs) (Fix d # ss) = (c = d \<and> pre_match cs ss)"
| "pre_match (c # cs) (Rep k # ss) =
     ((k c \<and> pre_match cs (Rep k # ss)) \<or> pre_match (c # cs) ss)"

fun can_occur :: "string \<Rightarrow> seg list \<Rightarrow> bool" where
  "can_occur f [] = pre_match f []"
| "can_occur f (i # ss) = (pre_match f (i # ss) \<or> can_occur f ss)"

text \<open>The classes of the values in the canonical forms: no \<^verbatim>\<open>? . /\<close>; none of these
  and no \<^verbatim>\<open>=\<close>; a digit or a slash.\<close>

definition path_free :: "char \<Rightarrow> bool" where
  "path_free c = (c \<notin> set ''?./'')"

definition plain :: "char \<Rightarrow> bool" where
  "plain c = (c \<notin> set ''?./='')"

definition digit_or_slash :: "char \<Rightarrow> bool" where
  "digit_or_slash c = (is_digit c \<or> c = CHR ''/'')"

text \<open>\<open>fixed_point p\<close>: \<open>reduce\<close> returns \<open>p\<close> as it is, and so does reducing again.\<close>

definition fixed_point :: "string \<Rightarrow> bool" where
  "fixed_point p = (reduce p = p \<and> reduce (reduce p) = reduce p)"

text \<open>The canonical form of an embed URL, before the video id.\<close>

definition embed_prefix :: string where
  "embed_prefix = ''youtube.fuzzy.replayweb.page/embed/''"

text \<open>The characters that \<^verbatim>\<open>encodeURIComponent\<close> can return.\<close>

definition path_safe :: "char \<Rightarrow> bool" where
  "path_safe c = (uri_unreserved c \<or> c = CHR ''%'')"

text \<open>A scheme: a letter, then letters, digits and \<^verbatim>\<open>+ - .\<close>\<close>

definition is_scheme :: "string \<Rightarrow> bool" where
  "is_scheme s = (case s of [] \<Rightarrow> False | c # cs \<Rightarrow> is_alpha c \<and> list_all scheme_char cs)"

text \<open>\<open>parses s\<close>: \<^verbatim>\<open>new URL(s)\<close> returns. \<open>serialized s\<close>: it returns a URL that
  has no query and whose string is \<open>s\<close> again.\<close>

definition parses :: "string \<Rightarrow> bool" where
  "parses s = (case URL_new s None of Inl e \<Rightarrow> False | Inr u \<Rightarrow> True)"

definition serialized :: "string \<Rightarrow> bool" where
  "serialized s = (case URL_new s None of Inl e \<Rightarrow> False | Inr u \<Rightarrow> href u = s \<and> search u = [])"

text \<open>The URL that \<^verbatim>\<open>http://localhost/archive/20230101/example.com/x?a=1&b=2\<close>
  parses to.\<close>

definition url_example :: url where
  "url_example = \<lparr> u_scheme = ''http'', u_username = [], u_password = [],
     u_host = Some (DomainName ''localhost''), u_port = None,
     u_path = Segs [''archive'', ''20230101'', ''example.com'', ''x''],
     u_query = Some ''a=1&b=2'', u_fragment = None \<rparr>"

section \<open>Properties of the regular expressions\<close>


declare matches.simps(5) [simp del]
declare regexp_exec.simps [simp del]

lemma factor_iff: "factor f s = (\<exists>a b. s = a @ f @ b)"
proof (induction s)
  case Nil
  then show ?case by auto
next
  case (Cons x xs)
  show ?case
  proof
    assume "factor f (x # xs)"
    then consider "take (length f) (x # xs) = f" | "factor f xs" by auto
    then show "\<exists>a b. x # xs = a @ f @ b"
    proof cases
      case 1
      then have "x # xs = [] @ f @ drop (length f) (x # xs)"
        by (metis append_Nil append_take_drop_id)
      then show ?thesis by blast
    next
      case 2
      then obtain a b where "xs = a @ f @ b" using Cons.IH by blast
      then have "x # xs = (x # a) @ f @ b" by simp
      then show ?thesis by blast
    qed
  next
    assume "\<exists>a b. x # xs = a @ f @ b"
    then obtain a b where ab: "x # xs = a @ f @ b" by blast
    show "factor f (x # xs)"
    proof (cases a)
      case Nil
      then have "take (length f) (x # xs) = f" using ab by simp
      then show ?thesis by simp
    next
      case (Cons y ys)
      then have "xs = ys @ f @ b" using ab by simp
      then have "factor f xs" using Cons.IH by blast
      then show ?thesis by simp
    qed
  qed
qed

lemma factor_append: "factor f w \<Longrightarrow> factor f (a @ w @ b)"
  unfolding factor_iff by (metis append.assoc)

lemma matches_suffix: "(w, s', c') \<in> set (matches r p s c) \<Longrightarrow> s = w @ s'"
proof (induction r p s c arbitrary: w s' c' rule: matches.induct)
  case (1 l p s c)
  then show ?case by (auto split: if_splits) (metis append_take_drop_id)
next
  case (2 neg items p s c)
  then show ?case by (auto split: list.splits if_splits)
next
  case (3 a b p s c)
  then show ?case by fastforce
next
  case (4 a b p s c)
  then show ?case by auto
next
  case (5 greedy a p s c)
  from "5.prems" consider "w = [] \<and> s' = s" |
    "\<exists>w1 s1 c1 w2. (w1, s1, c1) \<in> set (matches a p s c) \<and> length s1 < length s \<and>
       (w2, s', c') \<in> set (matches (Star greedy a) (rev w1 @ p) s1 c1) \<and> w = w1 @ w2"
    by (subst (asm) matches.simps(5)) (auto simp: Let_def split: if_splits)
  then show ?case
  proof cases
    case 1
    then show ?thesis by simp
  next
    case 2
    then obtain w1 s1 c1 w2 where h: "(w1, s1, c1) \<in> set (matches a p s c)" "length s1 < length s"
      "(w2, s', c') \<in> set (matches (Star greedy a) (rev w1 @ p) s1 c1)" "w = w1 @ w2" by blast
    have "s = w1 @ s1" using "5.IH"(1) h(1) by blast
    moreover have "s1 = w2 @ s'" using "5.IH"(2) [OF h(1) _ _ h(2)] h(3) by auto
    ultimately show ?thesis using h(4) by simp
  qed
next
  case (6 n a p s c)
  then show ?case by auto
next
  case (7 neg items p s c)
  then show ?case by (auto split: list.splits if_splits)
next
  case (8 p s c)
  then show ?case by (auto split: if_splits)
next
  case (9 p s c)
  then show ?case by (auto split: if_splits)
qed

lemmas rule_defs = rule1_def rule2_def rule3_def rule4_def rule5_def rule6_def rule7_def rule8_def
  www_youtube_def Plus_def Opt_def Eps_def Dot_def



lemmas m_simps = matches.simps(1-4) matches.simps(6-9)

lemma mem_Lit: "(w, s', c') \<in> set (matches (Lit l) p s c) = (w = l \<and> s = l @ s' \<and> c' = c)"
  by (auto split: if_splits) (metis append_take_drop_id)

lemma mem_Cls:
  "(w, s', c') \<in> set (matches (Cls neg items) p s c) =
     (\<exists>x. w = [x] \<and> s = x # s' \<and> in_cls neg items x \<and> c' = c)"
  by (auto split: list.splits if_splits)

lemma mem_Cat:
  "(w, s', c') \<in> set (matches (Cat a b) p s c) =
     (\<exists>w1 s1 c1 w2. (w1, s1, c1) \<in> set (matches a p s c) \<and>
        (w2, s', c') \<in> set (matches b (rev w1 @ p) s1 c1) \<and> w = w1 @ w2)"
  by fastforce

lemma mem_Grp:
  "(w, s', c') \<in> set (matches (Grp n a) p s c) =
     (\<exists>c0. (w, s', c0) \<in> set (matches a p s c) \<and> c' = c0(n \<mapsto> w))"
  by force

lemma mem_Eol: "(w, s', c') \<in> set (matches Eol p s c) = (w = [] \<and> s = [] \<and> s' = [] \<and> c' = c)"
  by auto

lemma star_cls_Nil: "matches (Star True (Cls neg items)) p [] c = [([], [], c)]"
  by (simp add: matches.simps(5))

lemma star_cls_Cons:
  "matches (Star True (Cls neg items)) p (x # xs) c =
     (if in_cls neg items x
      then map (\<lambda>(w, s', c'). (x # w, s', c')) (matches (Star True (Cls neg items)) (x # p) xs c) @
           [([], x # xs, c)]
      else [([], x # xs, c)])"
  by (subst matches.simps(5)) simp

lemma mem_Star_Cls:
  "(w, s', c') \<in> set (matches (Star True (Cls neg items)) p s c) =
     (s = w @ s' \<and> c' = c \<and> list_all (in_cls neg items) w)"
proof (induction s arbitrary: w p)
  case Nil
  then show ?case by (auto simp: star_cls_Nil)
next
  case (Cons x xs)
  show ?case
  proof (cases w)
    case Nil
    then show ?thesis by (auto simp: star_cls_Cons Cons.IH)
  next
    case (Cons y ys)
    have "(y # ys, s', c') \<in> set (matches (Star True (Cls neg items)) p (x # xs) c) =
          (in_cls neg items x \<and> x = y \<and> (ys, s', c') \<in> set (matches (Star True (Cls neg items)) (x # p) xs c))"
      by (force simp: star_cls_Cons)
    then show ?thesis using Cons by (auto simp: Cons.IH)
  qed
qed

declare matches.simps [simp del]

lemma mem_Plus_Cls:
  "(w, s', c') \<in> set (matches (Plus (Cls neg items)) p s c) =
     (s = w @ s' \<and> c' = c \<and> w \<noteq> [] \<and> list_all (in_cls neg items) w)"
  unfolding Plus_def mem_Cat mem_Cls mem_Star_Cls
  by (cases w) auto

lemma in_cls_not: "in_cls True [Ch d] x = (x \<noteq> d)"
  by (simp add: in_cls_def)

lemma in_cls_digit: "in_cls False [Digit] x = is_digit x"
  by (simp add: in_cls_def)

lemma rule3_match_shape:
  "(w, s', c') \<in> set (matches (match rule3) p s Map.empty) =
     (\<exists>e ds. e \<noteq> [] \<and> CHR ''?'' \<notin> set e \<and> ds \<noteq> [] \<and> list_all is_digit ds \<and>
        s = CHR ''.'' # e @ CHR ''?'' # ds \<and> s' = [] \<and> w = s \<and>
        c' = [1 \<mapsto> CHR ''.'' # e @ ''?''])"
  unfolding rule3_def
  apply (simp add: mem_Cat mem_Grp mem_Lit mem_Plus_Cls mem_Eol in_cls_not in_cls_digit list_all_iff)
  apply (rule iffI)
   apply (elim exE conjE)
   apply (auto)[1]
  apply (elim exE conjE)
  apply (intro exI conjI)
  apply auto
  done


lemma exec_Some_elim:
  "regexp_exec r p s = Some (b, w, s', c) \<Longrightarrow>
     \<exists>x y. s = x @ y \<and> b = rev p @ x \<and> (w, s', c) \<in> set (matches r (rev x @ p) y Map.empty)"
proof (induction s arbitrary: p)
  case Nil
  then show ?case by (auto simp: regexp_exec.simps split: list.splits)
next
  case (Cons z zs)
  show ?case
  proof (cases "matches r p (z # zs) Map.empty")
    case Nil
    then have "regexp_exec r (z # p) zs = Some (b, w, s', c)"
      using Cons.prems by (simp add: regexp_exec.simps [of r p "z # zs"])
    then obtain x y where h: "zs = x @ y" "b = rev (z # p) @ x"
      "(w, s', c) \<in> set (matches r (rev x @ z # p) y Map.empty)" using Cons.IH by blast
    have "z # zs = (z # x) @ y \<and> b = rev p @ (z # x) \<and>
          (w, s', c) \<in> set (matches r (rev (z # x) @ p) y Map.empty)" using h by simp
    then show ?thesis by blast
  next
    case (Cons m ms)
    then have "z # zs = [] @ (z # zs) \<and> b = rev p @ [] \<and>
          (w, s', c) \<in> set (matches r (rev [] @ p) (z # zs) Map.empty)"
      using Cons.prems by (auto simp: regexp_exec.simps [of r p "z # zs"])
    then show ?thesis by blast
  qed
qed

lemma exec_exists:
  "matches r (rev x @ p) y Map.empty \<noteq> [] \<Longrightarrow> regexp_exec r p (x @ y) \<noteq> None"
proof (induction x arbitrary: p)
  case Nil
  then show ?case by (auto simp: regexp_exec.simps [of r p y] split: list.splits)
next
  case (Cons z zs)
  then have "regexp_exec r (z # p) (zs @ y) \<noteq> None" by simp
  then show ?case by (auto simp: regexp_exec.simps [of r p "z # zs @ y"] split: list.splits)
qed

lemma is_digit_not_q: "is_digit c \<Longrightarrow> c \<noteq> CHR ''?''"
  by (auto simp: is_digit_def)

lemma split_at_last:
  "d \<notin> set a \<Longrightarrow> d \<notin> set b \<Longrightarrow> x @ d # a = y @ d # b \<Longrightarrow> x = y \<and> a = b"
proof (induction x arbitrary: y)
  case Nil
  then show ?case by (cases y) auto
next
  case (Cons x0 xs)
  then show ?case by (cases y) auto
qed

lemma rule3_strips:
  assumes "e \<noteq> []" "CHR ''?'' \<notin> set e" "ds \<noteq> []" "list_all is_digit ds"
  shows "apply_rule rule3 (pre @ CHR ''.'' # e @ CHR ''?'' # ds) = pre @ CHR ''.'' # e @ ''?''"
proof -
  let ?y = "CHR ''.'' # e @ CHR ''?'' # ds"
  have "(?y, [], [1 \<mapsto> CHR ''.'' # e @ ''?'']) \<in> set (matches (match rule3) (rev pre @ []) ?y Map.empty)"
    unfolding rule3_match_shape using assms by blast
  then have "matches (match rule3) (rev pre @ []) ?y Map.empty \<noteq> []" by auto
  then have "regexp_exec (match rule3) [] (pre @ ?y) \<noteq> None" by (rule exec_exists)
  then obtain b w s' c where ex: "regexp_exec (match rule3) [] (pre @ ?y) = Some (b, w, s', c)"
    by (metis not_None_eq prod_cases4)
  then obtain x y where h: "pre @ ?y = x @ y" "b = x"
    "(w, s', c) \<in> set (matches (match rule3) (rev x @ []) y Map.empty)"
    using exec_Some_elim [OF ex] by auto
  from h(3) obtain e' ds' where k: "list_all is_digit ds'" "y = CHR ''.'' # e' @ CHR ''?'' # ds'"
    "s' = []" "c = [1 \<mapsto> CHR ''.'' # e' @ ''?'']"
    unfolding rule3_match_shape by blast
  have nq: "CHR ''?'' \<notin> set ds" "CHR ''?'' \<notin> set ds'"
    using assms(4) k(1) is_digit_not_q by (auto simp: list_all_iff)
  have eq0: "(pre @ CHR ''.'' # e) @ CHR ''?'' # ds = (x @ CHR ''.'' # e') @ CHR ''?'' # ds'"
    using h(1) k(2) by simp
  have eq: "pre @ CHR ''.'' # e = x @ CHR ''.'' # e'"
    using split_at_last [OF nq eq0] by (rule conjunct1)
  have rb: "replace_by rule3 = [TGrp 1]" by (simp add: rule3_def)
  have "apply_rule rule3 (pre @ ?y) = b @ expand [TGrp 1] c @ s'"
    unfolding apply_rule_def replace_def rb ex by simp
  also have "\<dots> = x @ CHR ''.'' # e' @ ''?''" unfolding h(2) k(3) k(4) by simp
  also have "\<dots> = (x @ CHR ''.'' # e') @ ''?''" by simp
  also have "\<dots> = (pre @ CHR ''.'' # e) @ ''?''" unfolding eq ..
  finally show ?thesis by simp
qed

lemma exact_sound: "exact r = Some l \<Longrightarrow> (w, s', c') \<in> set (matches r p s c) \<Longrightarrow> w = l"
proof (induction r arbitrary: l w s' c' p s c)
  case (Lit x)
  then show ?case by (simp add: mem_Lit)
next
  case (Cat a b)
  from Cat.prems(1) obtain x y where xy: "exact a = Some x" "exact b = Some y" "l = x @ y"
    by (auto split: option.splits)
  from Cat.prems(2) obtain w1 s1 c1 w2 where h: "(w1, s1, c1) \<in> set (matches a p s c)"
    "(w2, s', c') \<in> set (matches b (rev w1 @ p) s1 c1)" "w = w1 @ w2"
    unfolding mem_Cat by blast
  show ?case using Cat.IH(1) [OF xy(1) h(1)] Cat.IH(2) [OF xy(2) h(2)] xy(3) h(3) by simp
next
  case (Grp n a)
  then show ?case unfolding mem_Grp by auto
qed simp_all

lemma starts_sound: "(w, s', c') \<in> set (matches r p s c) \<Longrightarrow> \<exists>t. w = starts r @ t"
proof (induction r arbitrary: w s' c' p s c)
  case (Lit x)
  then show ?case by (simp add: mem_Lit)
next
  case (Cat a b)
  from Cat.prems obtain w1 s1 c1 w2 where h: "(w1, s1, c1) \<in> set (matches a p s c)"
    "(w2, s', c') \<in> set (matches b (rev w1 @ p) s1 c1)" "w = w1 @ w2"
    unfolding mem_Cat by blast
  show ?case
  proof (cases "exact a")
    case None
    obtain t where "w1 = starts a @ t" using Cat.IH(1) [OF h(1)] by blast
    then show ?thesis using None h(3) by simp
  next
    case (Some x)
    have "w1 = x" using exact_sound [OF Some h(1)] .
    moreover obtain t where "w2 = starts b @ t" using Cat.IH(2) [OF h(2)] by blast
    ultimately show ?thesis using Some h(3) by simp
  qed
next
  case (Grp n a)
  then show ?case unfolding mem_Grp by auto
qed simp_all

lemma needs_sound: "needs f r \<Longrightarrow> (w, s', c') \<in> set (matches r p s c) \<Longrightarrow> factor f w"
proof (induction r arbitrary: w s' c' p s c)
  case (Lit l)
  then show ?case by (simp add: mem_Lit)
next
  case (Cat a b)
  from Cat.prems(2) obtain w1 s1 c1 w2 where h: "(w1, s1, c1) \<in> set (matches a p s c)"
    "(w2, s', c') \<in> set (matches b (rev w1 @ p) s1 c1)" "w = w1 @ w2"
    unfolding mem_Cat by blast
  from Cat.prems(1) consider "needs f a" | "needs f b"
    | x where "exact a = Some x" "factor f (x @ starts b)"
    by (auto split: option.splits)
  then show ?case
  proof cases
    case 1
    then have "factor f w1" using Cat.IH(1) h(1) by blast
    then show ?thesis using factor_append [of f w1 "[]" w2] h(3) by simp
  next
    case 2
    then have "factor f w2" using Cat.IH(2) h(2) by blast
    then show ?thesis using factor_append [of f w2 w1 "[]"] h(3) by simp
  next
    case 3
    have "w1 = x" using exact_sound [OF 3(1) h(1)] .
    moreover obtain t where "w2 = starts b @ t" using starts_sound [OF h(2)] by blast
    ultimately have "w = [] @ (x @ starts b) @ t" using h(3) by simp
    then show ?thesis using factor_append [OF 3(2), of "[]" t] by simp
  qed
next
  case (Alt a b)
  then show ?case by (auto simp: m_simps)
next
  case (Grp n a)
  then show ?case unfolding mem_Grp by auto
qed simp_all

lemma needs_no_match: "needs f r \<Longrightarrow> \<not> factor f s \<Longrightarrow> matches r p s c = []"
proof (rule ccontr)
  assume h: "needs f r" "\<not> factor f s" "matches r p s c \<noteq> []"
  then obtain w s' c' where m: "(w, s', c') \<in> set (matches r p s c)"
    by (metis list.set_intros(1) neq_Nil_conv prod_cases3)
  then have "factor f w" "s = w @ s'" using needs_sound h(1) matches_suffix by blast+
  then have "factor f s" using factor_append [of f w "[]" s'] by simp
  then show False using h(2) by simp
qed

lemma needs_exec_None: "needs f r \<Longrightarrow> \<not> factor f s \<Longrightarrow> regexp_exec r p s = None"
proof (induction s arbitrary: p)
  case Nil
  then show ?case using needs_no_match [of f r "[]" p Map.empty] by (simp add: regexp_exec.simps)
next
  case (Cons x xs)
  then have "\<not> factor f xs" by simp
  then have "regexp_exec r (x # p) xs = None" using Cons by blast
  then show ?case using needs_no_match [OF Cons.prems(1) Cons.prems(2), of p Map.empty]
    by (simp add: regexp_exec.simps [of r p "x # xs"])
qed

lemma needs_unchanged: "needs f (match r) \<Longrightarrow> \<not> factor f s \<Longrightarrow> apply_rule r s = s"
  by (simp add: apply_rule_def replace_def needs_exec_None)

lemma conc_Fix: "conc (map Fix a @ ss) s = (\<exists>t. s = a @ t \<and> conc ss t)"
  by (induction a arbitrary: s) auto

lemma pre_match_sound: "conc ss (f @ r) \<Longrightarrow> pre_match f ss"
proof (induction f ss arbitrary: r rule: pre_match.induct)
  case (1 ss)
  then show ?case by simp
next
  case (2 c cs)
  then show ?case by simp
next
  case (3 c cs d ss)
  then show ?case by auto
next
  case (4 c cs k ss)
  from "4.prems" obtain u t where h: "(c # cs) @ r = u @ t" "list_all k u" "conc ss t" by auto
  show ?case
  proof (cases u)
    case Nil
    then have "conc ss ((c # cs) @ r)" using h by simp
    then show ?thesis using "4.IH"(2) by simp
  next
    case (Cons u0 u')
    then have k: "k c" "cs @ r = u' @ t" "list_all k u'" using h by auto
    then have "conc (Rep k # ss) (cs @ r)" using h(3) by auto
    then show ?thesis using "4.IH"(1) k(1) by simp
  qed
qed

lemma can_occur_head: "pre_match f ss \<Longrightarrow> can_occur f ss"
  by (cases ss) auto

lemma conc_tail:
  "conc ss (x # s) \<Longrightarrow> \<exists>ss'. conc ss' s \<and> (\<forall>f. can_occur f ss' \<longrightarrow> can_occur f ss)"
proof (induction ss)
  case Nil
  then show ?case by simp
next
  case (Cons i ss)
  show ?case
  proof (cases i)
    case (Fix d)
    then have "conc ss s" using Cons.prems by auto
    then show ?thesis by (metis can_occur.simps(2))
  next
    case (Rep k)
    then obtain u t where h: "x # s = u @ t" "list_all k u" "conc ss t" using Cons.prems by auto
    show ?thesis
    proof (cases u)
      case Nil
      then have "conc ss (x # s)" using h by simp
      then obtain ss' where "conc ss' s" "\<forall>f. can_occur f ss' \<longrightarrow> can_occur f ss"
        using Cons.IH by blast
      then show ?thesis by (metis can_occur.simps(2))
    next
      case (Cons u0 u')
      then have "s = u' @ t" "list_all k u'" using h by auto
      then have "conc (i # ss) s" using Rep h(3) by auto
      then show ?thesis by blast
    qed
  qed
qed

lemma can_occur_sound: "conc ss (a @ f @ b) \<Longrightarrow> can_occur f ss"
proof (induction a arbitrary: ss)
  case Nil
  then have "pre_match f ss" using pre_match_sound [of ss f b] by simp
  then show ?case by (rule can_occur_head)
next
  case (Cons x a)
  then obtain ss' where "conc ss' (a @ f @ b)" "\<forall>g. can_occur g ss' \<longrightarrow> can_occur g ss"
    using conc_tail [of ss x "a @ f @ b"] by auto
  then show ?case using Cons.IH by blast
qed

lemma absent: "conc ss s \<Longrightarrow> \<not> can_occur f ss \<Longrightarrow> \<not> factor f s"
  unfolding factor_iff using can_occur_sound by blast


lemma needs_absent:
  "needs f (match r) \<Longrightarrow> conc ss s \<Longrightarrow> \<not> can_occur f ss \<Longrightarrow> apply_rule r s = s"
  using needs_unchanged absent by blast

lemma conc_Rep_last: "list_all k v \<Longrightarrow> conc [Rep k] v"
  by auto

lemma conc_Rep: "list_all k v \<Longrightarrow> conc ss t \<Longrightarrow> conc (Rep k # ss) (v @ t)"
  by auto

lemma conc1: "list_all k v \<Longrightarrow> conc (map Fix a @ [Rep k]) (a @ v)"
  unfolding conc_Fix using conc_Rep_last by blast

lemma conc1b: "list_all k v \<Longrightarrow> conc (map Fix a @ [Rep k] @ map Fix b) (a @ v @ b)"
proof -
  assume k: "list_all k v"
  have "conc (map Fix b @ []) (b @ [])" unfolding conc_Fix by simp
  then have "conc (Rep k # map Fix b) (v @ b)" using k conc_Rep [of k v "map Fix b" b] by simp
  then show ?thesis unfolding conc_Fix by auto
qed

lemma conc3:
  assumes "list_all k1 x" "list_all k2 y" "list_all k3 z"
  shows "conc (map Fix a @ [Rep k1] @ map Fix b @ [Rep k2] @ map Fix c @ [Rep k3])
           (a @ x @ b @ y @ c @ z)"
proof -
  have 1: "conc (map Fix c @ [Rep k3]) (c @ z)" using assms(3) by (rule conc1)
  have 2: "conc (Rep k2 # map Fix c @ [Rep k3]) (y @ c @ z)" using assms(2) 1 by (rule conc_Rep)
  have 3: "conc (map Fix b @ Rep k2 # map Fix c @ [Rep k3]) (b @ y @ c @ z)"
    unfolding conc_Fix using 2 by blast
  have 4: "conc (Rep k1 # map Fix b @ Rep k2 # map Fix c @ [Rep k3]) (x @ b @ y @ c @ z)"
    using assms(1) 3 by (rule conc_Rep)
  have "conc (map Fix a @ Rep k1 # map Fix b @ Rep k2 # map Fix c @ [Rep k3]) (a @ x @ b @ y @ c @ z)"
    unfolding conc_Fix using 4 by blast
  then show ?thesis by simp
qed

lemma rule3_tail:
  assumes "CHR ''?'' \<notin> set t" "t = [] \<or> \<not> list_all is_digit t"
  shows "apply_rule rule3 (a @ CHR ''?'' # t) = a @ CHR ''?'' # t"
proof (cases "regexp_exec (match rule3) [] (a @ CHR ''?'' # t)")
  case None
  then show ?thesis by (simp add: apply_rule_def replace_def)
next
  case (Some m)
  obtain b w s' c where m: "m = (b, w, s', c)" by (metis prod_cases4)
  obtain x y where h: "a @ CHR ''?'' # t = x @ y"
    "(w, s', c) \<in> set (matches (match rule3) (rev x @ []) y Map.empty)"
    using exec_Some_elim [OF Some [unfolded m]] by auto
  from h(2) obtain e ds where k: "ds \<noteq> []" "list_all is_digit ds" "y = CHR ''.'' # e @ CHR ''?'' # ds"
    unfolding rule3_match_shape by blast
  have nq: "CHR ''?'' \<notin> set ds" using k(2) is_digit_not_q by (auto simp: list_all_iff)
  have eq0: "a @ CHR ''?'' # t = (x @ CHR ''.'' # e) @ CHR ''?'' # ds" using h(1) k(3) by simp
  have "t = ds" using split_at_last [OF assms(1) nq eq0] by (rule conjunct2)
  then show ?thesis using assms(2) k(1,2) by simp
qed


lemma factor_set: "factor f s \<Longrightarrow> set f \<subseteq> set s"
  unfolding factor_iff by auto

lemma factor_hd: "f \<noteq> [] \<Longrightarrow> hd f \<notin> set s \<Longrightarrow> \<not> factor f s"
  using factor_set [of f s] by (cases f) auto

lemma embed_no_question: "CHR ''?'' \<notin> set v \<Longrightarrow> \<not> factor ''?'' (embed_prefix @ v)"
  using factor_set [of "''?''" "embed_prefix @ v"] by (auto simp: embed_prefix_def)

lemma embed_no_dot_c: "CHR ''.'' \<notin> set v \<Longrightarrow> \<not> factor ''.c'' (embed_prefix @ v)"
  using factor_hd [of "''.c''" v] by (simp add: embed_prefix_def)

lemma embed_no_dot_a: "CHR ''.'' \<notin> set v \<Longrightarrow> \<not> factor ''.a'' (embed_prefix @ v)"
  using factor_hd [of "''.a''" v] by (simp add: embed_prefix_def)

lemma star_cls_all_first:
  "list_all (in_cls neg items) s \<Longrightarrow>
     \<exists>rest. matches (Star True (Cls neg items)) p s c = (s, [], c) # rest"
proof (induction s arbitrary: p)
  case Nil
  then show ?case by (simp add: star_cls_Nil)
next
  case (Cons x xs)
  then obtain rest where "matches (Star True (Cls neg items)) (x # p) xs c = (xs, [], c) # rest"
    by fastforce
  then show ?case using Cons.prems by (simp add: star_cls_Cons)
qed

lemma plus_cls_all_first:
  assumes "s \<noteq> []" "list_all (in_cls neg items) s"
  shows "\<exists>rest. matches (Plus (Cls neg items)) p s c = (s, [], c) # rest"
proof -
  obtain x xs where s: "s = x # xs" using assms(1) by (cases s) auto
  then obtain rest where "matches (Star True (Cls neg items)) (x # p) xs c = (xs, [], c) # rest"
    using star_cls_all_first [of neg items xs "x # p" c] assms(2) by auto
  then show ?thesis using s assms(2) by (simp add: Plus_def m_simps)
qed

lemma embed_tail_first:
  assumes "v \<noteq> []" "list_all (in_cls True [Ch CHR ''?'', Ch CHR ''&'']) v"
  shows "\<exists>rest. matches (Cat (Grp 1 (Plus (Cls True [Ch CHR ''?'', Ch CHR ''&'']))) (Star True Dot)) p v c =
           (v, [], c(1 \<mapsto> v)) # rest"
proof -
  obtain rest where "matches (Plus (Cls True [Ch CHR ''?'', Ch CHR ''&''])) p v c = (v, [], c) # rest"
    using plus_cls_all_first [OF assms] by blast
  then show ?thesis by (simp add: m_simps Dot_def star_cls_Nil)
qed

lemma rule6_identity:
  assumes "CHR ''?'' \<notin> set v" "CHR ''&'' \<notin> set v"
  shows "apply_rule rule6 (embed_prefix @ v) = embed_prefix @ v"
proof (cases "v = []")
  case True
  have "apply_rule rule6 embed_prefix = embed_prefix" unfolding embed_prefix_def by code_simp
  then show ?thesis using True by simp
next
  case False
  have "list_all (in_cls True [Ch CHR ''?'', Ch CHR ''&'']) v"
    using assms by (auto simp: list_all_iff in_cls_def)
  then obtain rest where
    "matches (Cat (Grp 1 (Plus (Cls True [Ch CHR ''?'', Ch CHR ''&'']))) (Star True Dot))
       (rev embed_prefix) v Map.empty = (v, [], [1 \<mapsto> v]) # rest"
    using embed_tail_first [OF False] by blast
  then have "\<exists>rest'. matches (match rule6) [] (embed_prefix @ v) Map.empty =
      (embed_prefix @ v, [], [1 \<mapsto> v]) # rest'"
    by (simp add: rule6_def embed_prefix_def m_simps Dot_def in_cls_def)
  then obtain rest' where "matches (match rule6) [] (embed_prefix @ v) Map.empty =
      (embed_prefix @ v, [], [1 \<mapsto> v]) # rest'" by blast
  then have "regexp_exec (match rule6) [] (embed_prefix @ v) = Some ([], embed_prefix @ v, [], [1 \<mapsto> v])"
    by (simp add: regexp_exec.simps [of _ "[]"])
  moreover have "replace_by rule6 = [TLit embed_prefix, TGrp 1]"
    by (simp add: rule6_def embed_prefix_def)
  ultimately show ?thesis by (simp add: apply_rule_def replace_def)
qed


section \<open>Properties of the URL model\<close>


lemma hex_digits_unreserved: "list_all (\<lambda>n. uri_unreserved (hex_digit n)) [0 ..< 16]"
  by code_simp

lemma hex_digit_unreserved: "n < 16 \<Longrightarrow> uri_unreserved (hex_digit n)"
  using hex_digits_unreserved unfolding list_all_iff by simp

lemma pct_byte_safe: "b < 256 \<Longrightarrow> list_all path_safe (pct_byte b)"
  by (simp add: pct_byte_def path_safe_def hex_digit_unreserved)

lemma utf8_small: "list_all (\<lambda>b. b < 256) (utf8 c)"
proof -
  have "code c < 256" by (simp add: code_def)
  then show ?thesis by (auto simp: utf8_def)
qed

lemma pct_safe: "list_all path_safe (pct (\<lambda>c. \<not> uri_unreserved c) c)"
  using utf8_small [of c] pct_byte_safe
  by (auto simp: pct_def path_safe_def list_all_iff)

lemma encodeURIComponent_safe: "list_all path_safe (encodeURIComponent s)"
  using pct_safe by (auto simp: encodeURIComponent_def list_all_iff)

lemma encodeURIComponent_question:
  "encodeURIComponent (CHR ''?'' # q) = ''%3F'' @ encodeURIComponent q"
proof -
  have "pct (\<lambda>c. \<not> uri_unreserved c) CHR ''?'' = ''%3F''" by code_simp
  then show ?thesis by (simp add: encodeURIComponent_def)
qed

lemma path_safe_props:
  assumes "path_safe c"
  shows "c \<noteq> CHR ''/''" "c \<noteq> CHR 0x5C" "\<not> tab_or_newline c" "pct path_set c = [c]"
proof -
  have "list_all (\<lambda>c. c \<noteq> CHR ''/'' \<and> c \<noteq> CHR 0x5C \<and> \<not> tab_or_newline c \<and> \<not> path_set c)
     (''abcdefghijklmnopqrstuvwxyzABCDEFGHIJKLMNOPQRSTUVWXYZ0123456789%'' @
      [CHR ''-'', CHR ''_'', CHR ''.'', CHR ''!'', CHR ''~'', CHR ''*'', CHR 0x27, CHR ''('', CHR '')''])"
    by code_simp
  moreover have "c \<in> set (''abcdefghijklmnopqrstuvwxyzABCDEFGHIJKLMNOPQRSTUVWXYZ0123456789%'' @
      [CHR ''-'', CHR ''_'', CHR ''.'', CHR ''!'', CHR ''~'', CHR ''*'', CHR 0x27, CHR ''('', CHR '')''])"
    using assms unfolding path_safe_def uri_unreserved_def is_alnum_def is_alpha_def is_digit_def
    by auto
  ultimately have h: "c \<noteq> CHR ''/'' \<and> c \<noteq> CHR 0x5C \<and> \<not> tab_or_newline c \<and> \<not> path_set c"
    unfolding list_all_iff by blast
  then show "c \<noteq> CHR ''/''" "c \<noteq> CHR 0x5C" "\<not> tab_or_newline c" "pct path_set c = [c]"
    by (simp_all add: pct_def)
qed


lemma dot_segment_chars:
  assumes "CHR ''3'' \<in> set s"
  shows "\<not> double_dot s" "\<not> single_dot s"
proof -
  have "ascii_lower CHR ''3'' = CHR ''3''" by code_simp
  then have "CHR ''3'' \<in> set (map ascii_lower s)" using assms by force
  then show "\<not> double_dot s" "\<not> single_dot s"
    by (auto simp: double_dot_def single_dot_def)
qed

lemma windows_drive_letter_length: "windows_drive_letter s \<Longrightarrow> length s = 2"
  by (auto simp: windows_drive_letter_def split: list.splits)

lemma add_segment_plain:
  assumes "CHR ''3'' \<in> set b" "length b > 2"
  shows "add_segment u b False = u\<lparr>u_path := Segs (segs u @ [b])\<rparr>"
  using dot_segment_chars [OF assms(1)] windows_drive_letter_length [of b] assms(2)
  by (auto simp: add_segment_def)

lemma path_state_safe:
  "list_all path_safe e \<Longrightarrow> path_state True u buf e = Inr (add_segment u (buf @ e) False)"
proof (induction e arbitrary: buf)
  case Nil
  then show ?case by simp
next
  case (Cons c cs)
  then have "path_safe c" "list_all path_safe cs" by simp_all
  then show ?case using Cons.IH [of "buf @ [c]"] path_safe_props [of c]
    by (simp add: is_slash_def)
qed

lemma add_segment_list: "\<not> has_opaque_path u \<Longrightarrow> \<not> has_opaque_path (add_segment u b sl)"
  by (auto simp: has_opaque_path_def add_segment_def Let_def)

lemma take3_props:
  assumes "take 3 e = ''%3F''"
  shows "CHR ''3'' \<in> set (buf @ e)" "length (buf @ e) > 2"
proof -
  obtain r where "e = ''%3F'' @ r" using assms by (metis append_take_drop_id)
  then show "CHR ''3'' \<in> set (buf @ e)" "length (buf @ e) > 2" by simp_all
qed

lemma path_state_tail:
  assumes "list_all path_safe e" "take 3 e = ''%3F''"
  shows "\<not> has_opaque_path u \<Longrightarrow>
    \<exists>u' x. path_state True u buf (a @ e) = Inr u' \<and> \<not> has_opaque_path u' \<and> pathname u' = x @ e"
proof (induction a arbitrary: u buf)
  case Nil
  have "path_state True u buf e = Inr (u\<lparr>u_path := Segs (segs u @ [buf @ e])\<rparr>)"
    using path_state_safe [OF assms(1)] add_segment_plain [OF take3_props [OF assms(2)]] by simp
  moreover have "pathname (u\<lparr>u_path := Segs (segs u @ [buf @ e])\<rparr>) =
      (concat (map (\<lambda>s. CHR ''/'' # s) (segs u)) @ CHR ''/'' # buf) @ e"
    by (simp add: pathname_def)
  moreover have "\<not> has_opaque_path (u\<lparr>u_path := Segs (segs u @ [buf @ e])\<rparr>)"
    by (simp add: has_opaque_path_def)
  ultimately show ?case by (metis append_Nil)
next
  case (Cons c cs)
  show ?case
  proof (cases "is_slash u c")
    case True
    have "\<not> has_opaque_path (add_segment u buf True)" using Cons.prems by (rule add_segment_list)
    then obtain u' x where h: "path_state True (add_segment u buf True) [] (cs @ e) = Inr u'"
      "\<not> has_opaque_path u'" "pathname u' = x @ e"
      using Cons.IH by blast
    then show ?thesis using True by auto
  next
    case False
    obtain u' x where h: "path_state True u (buf @ pct path_set c) (cs @ e) = Inr u'"
      "\<not> has_opaque_path u'" "pathname u' = x @ e"
      using Cons.IH Cons.prems by blast
    then show ?thesis using False by auto
  qed
qed

lemma path_start_state_tail:
  assumes "list_all path_safe e" "take 3 e = ''%3F''" "\<not> has_opaque_path u"
  shows "\<exists>u' x. path_start_state True u (a @ e) = Inr u' \<and> \<not> has_opaque_path u' \<and> pathname u' = x @ e"
proof (cases a)
  case Nil
  obtain r where e: "e = CHR ''%'' # r" using assms(2) by (cases e) auto
  have "path_start_state True u e = path_state True u [] ([] @ e)"
    unfolding e by (simp add: path_start_state_def)
  then show ?thesis using Nil path_state_tail [OF assms, of "[]" "[]"] by simp
next
  case (Cons c cs)
  have "path_start_state True u (a @ e) = path_state True u [] (cs @ e) \<or>
        path_start_state True u (a @ e) = path_state True u [] ((c # cs) @ e)"
    unfolding Cons by (simp add: path_start_state_def)
  then show ?thesis
    using path_state_tail [OF assms, of "[]" cs] path_state_tail [OF assms, of "[]" "c # cs"] Cons
    by auto
qed

lemma filter_safe: "list_all path_safe e \<Longrightarrow> filter (\<lambda>c. \<not> tab_or_newline c) e = e"
  using path_safe_props(3) by (induction e) auto

lemma fold_query_path:
  assumes "search u \<noteq> []" "\<not> has_opaque_path u"
  shows "search (fold_query u) = [] \<and> \<not> has_opaque_path (fold_query u) \<and>
         (\<exists>x. pathname (fold_query u) = x @ encodeURIComponent (search u))"
proof -
  let ?e = "encodeURIComponent (search u)"
  obtain q where q: "search u = CHR ''?'' # q" using assms(1)
    by (auto simp: search_def split: option.splits if_splits)
  have safe: "list_all path_safe ?e" by (rule encodeURIComponent_safe)
  have t3: "take 3 ?e = ''%3F''" unfolding q encodeURIComponent_question by simp
  have u0: "\<not> has_opaque_path (u\<lparr>u_path := Segs []\<rparr>)" by (simp add: has_opaque_path_def)
  have "filter (\<lambda>c. \<not> tab_or_newline c) (pathname u @ ?e) =
        filter (\<lambda>c. \<not> tab_or_newline c) (pathname u) @ ?e"
    using filter_safe [OF safe] by simp
  then obtain u' x where h:
    "path_start_state True (u\<lparr>u_path := Segs []\<rparr>) (filter (\<lambda>c. \<not> tab_or_newline c) (pathname u @ ?e)) = Inr u'"
    "\<not> has_opaque_path u'" "pathname u' = x @ ?e"
    using path_start_state_tail [OF safe t3 u0] by metis
  then have sp: "set_pathname u (pathname u @ ?e) = u'" using assms(2) by (simp add: set_pathname_def)
  have fq: "fold_query u = clear_search u'" using assms(1) sp by (simp add: fold_query_def)
  obtain l where l: "u_path u' = Segs l" using h(2) by (auto simp: has_opaque_path_def split: upath.splits)
  have "clear_search u' = u'\<lparr>u_query := None\<rparr>" using l by (simp add: clear_search_def Let_def)
  then show ?thesis using fq h l by (simp add: search_def pathname_def has_opaque_path_def)
qed


lemma scheme_char_props:
  assumes "scheme_char c"
  shows "\<not> c0_or_space c" "\<not> tab_or_newline c" "c \<noteq> CHR '':''"
proof -
  have "list_all (\<lambda>c. \<not> c0_or_space c \<and> \<not> tab_or_newline c \<and> c \<noteq> CHR '':'')
     ''abcdefghijklmnopqrstuvwxyzABCDEFGHIJKLMNOPQRSTUVWXYZ0123456789+-.''"
    by code_simp
  moreover have "c \<in> set ''abcdefghijklmnopqrstuvwxyzABCDEFGHIJKLMNOPQRSTUVWXYZ0123456789+-.''"
    using assms unfolding scheme_char_def is_alnum_def is_alpha_def is_digit_def by auto
  ultimately have "\<not> c0_or_space c \<and> \<not> tab_or_newline c \<and> c \<noteq> CHR '':''"
    unfolding list_all_iff by blast
  then show "\<not> c0_or_space c" "\<not> tab_or_newline c" "c \<noteq> CHR '':''" by simp_all
qed

lemma alpha_not_slash: "is_alpha c \<Longrightarrow> c \<noteq> CHR ''/''"
  by (auto simp: is_alpha_def)

lemma alpha_scheme_char: "is_alpha c \<Longrightarrow> scheme_char c"
  by (simp add: scheme_char_def is_alnum_def)

lemma scheme_state_scan:
  "list_all scheme_char cs \<Longrightarrow>
     scheme_state base inp buf (cs @ CHR '':'' # r) = after_scheme base (buf @ map ascii_lower cs) r"
proof (induction cs arbitrary: buf)
  case Nil
  have "\<not> scheme_char CHR '':''" by code_simp
  then show ?case by simp
next
  case (Cons c cs)
  then show ?case by simp
qed

lemma after_scheme_slashes:
  "after_scheme (Some b) sch (''//'' @ r) = after_scheme None sch (''//'' @ r)"
  by (simp add: after_scheme_def file_state_def file_slash_state_def Let_def
      special_relative_or_authority_state_def special_authority_slashes_state_def)

lemma strip_keeps_scheme:
  assumes "is_scheme sch"
  shows "\<exists>r. filter (\<lambda>c. \<not> tab_or_newline c)
           (rev (dropWhile c0_or_space (rev (dropWhile c0_or_space (sch @ ''://'' @ rest))))) =
         sch @ ''://'' @ r"
proof -
  obtain c cs where sch: "sch = c # cs" "is_alpha c" "list_all scheme_char cs"
    using assms by (auto simp: is_scheme_def split: list.splits)
  have all: "list_all scheme_char sch" using sch alpha_scheme_char by simp
  have "\<not> c0_or_space c" using sch(2) alpha_scheme_char scheme_char_props(1) by blast
  then have d1: "dropWhile c0_or_space (sch @ ''://'' @ rest) = sch @ ''://'' @ rest"
    using sch(1) by simp
  have ns: "\<not> c0_or_space CHR ''/''" by code_simp
  have "\<exists>r'. dropWhile c0_or_space (rev rest @ ''//:'' @ rev sch) = r' @ ''//:'' @ rev sch"
  proof (cases "\<forall>x \<in> set (rev rest). c0_or_space x")
    case True
    then have "dropWhile c0_or_space (rev rest @ ''//:'' @ rev sch) =
       dropWhile c0_or_space (''//:'' @ rev sch)" by (simp add: dropWhile_append)
    also have "\<dots> = [] @ ''//:'' @ rev sch" using ns by simp
    finally show ?thesis by blast
  next
    case False
    then have "dropWhile c0_or_space (rev rest @ ''//:'' @ rev sch) =
       dropWhile c0_or_space (rev rest) @ ''//:'' @ rev sch"
      by (metis dropWhile_append1)
    then show ?thesis by blast
  qed
  then obtain r' where "dropWhile c0_or_space (rev (sch @ ''://'' @ rest)) = r' @ ''//:'' @ rev sch"
    by auto
  then have "rev (dropWhile c0_or_space (rev (sch @ ''://'' @ rest))) = sch @ ''://'' @ rev r'"
    by simp
  moreover have "filter (\<lambda>c. \<not> tab_or_newline c) sch = sch"
    using all scheme_char_props(2) by (induction sch) auto
  moreover have "\<not> tab_or_newline CHR '':''" "\<not> tab_or_newline CHR ''/''" by code_simp+
  ultimately show ?thesis using d1 by simp
qed

lemma basic_url_parser_absolute:
  assumes "is_scheme sch"
  shows "basic_url_parser (sch @ ''://'' @ rest) (Some b) = basic_url_parser (sch @ ''://'' @ rest) None"
proof -
  obtain c cs where sch: "sch = c # cs" "is_alpha c" "list_all scheme_char cs"
    using assms by (auto simp: is_scheme_def split: list.splits)
  obtain r where r: "filter (\<lambda>c. \<not> tab_or_newline c)
           (rev (dropWhile c0_or_space (rev (dropWhile c0_or_space (sch @ ''://'' @ rest))))) =
         sch @ ''://'' @ r" using strip_keeps_scheme [OF assms] by blast
  have "scheme_start_state base (sch @ ''://'' @ r) =
        after_scheme base ([ascii_lower c] @ map ascii_lower cs) (''//'' @ r)" for base
    using sch scheme_state_scan [OF sch(3), of base "sch @ ''://'' @ r" "[ascii_lower c]" "''//'' @ r"]
    by (simp add: scheme_start_state_def)
  then show ?thesis unfolding basic_url_parser_def r using after_scheme_slashes by simp
qed

lemma URL_new_absolute:
  assumes "is_scheme sch" "URL_new base None = Inr b"
  shows "URL_new (sch @ ''://'' @ rest) (Some base) = URL_new (sch @ ''://'' @ rest) None"
  using assms basic_url_parser_absolute [OF assms(1)] by (simp add: URL_new_def)

section \<open>The claims\<close>

lemma rewrite_steps:
  assumes "\<not> passthrough ctx s" "absolute_url ctx s = Inr a" "reduce (entry_path ctx a) = r"
  shows "urlRewriteFunction ctx (Some s) useRel mod' doc =
           (case final_url ctx r of Inl e \<Rightarrow> Inl e | Inr v \<Rightarrow> Inr (Some v))"
  using assms by (auto simp: urlRewriteFunction_def passthrough_def)

lemma rewrite_passthrough:
  "passthrough ctx s \<Longrightarrow> urlRewriteFunction ctx (Some s) useRel mod' doc = Inr (Some s)"
  by (auto simp: urlRewriteFunction_def passthrough_def)

lemma reduce_loop_find:
  "reduce_loop rs p =
     (case find (\<lambda>r. apply_rule r p \<noteq> p) rs of None \<Rightarrow> p | Some r \<Rightarrow> apply_rule r p)"
  by (induction rs) (simp_all add: Let_def)

lemma rule1_both: "apply_rule rule1 ''googlevideo.com/videoplayback?id=a.b?1'' =
    ''youtube.fuzzy.replayweb.page/videoplayback?id=a.b?1''"
  by code_simp

lemma rule3_both: "apply_rule rule3 ''googlevideo.com/videoplayback?id=a.b?1'' =
    ''googlevideo.com/videoplayback?id=a.b?''"
  by code_simp

subsection \<open>Evaluations\<close>

lemma reduce_ytimg: "reduce ''s.ytimg.com/videoplayback?id=abc123&itag=22'' = ''s.ytimg.com/videoplayback?id=abc123&itag=22''"
proof -
  let ?s = "''s.ytimg.com/videoplayback?id=abc123&itag=22''"
  have r1: "apply_rule rule1 ?s = ?s"
    by (rule needs_unchanged [of "''googlevideo''"]) (simp_all add: rule_defs)
  have r2: "apply_rule rule2 ?s = ?s"
    by (rule needs_unchanged [of "''youtube''"]) (simp_all add: rule_defs)
  have r3: "apply_rule rule3 ?s = ?s" by code_simp
  have r4: "apply_rule rule4 ?s = ?s"
    by (rule needs_unchanged [of "''youtube''"]) (simp_all add: rule_defs)
  have r5: "apply_rule rule5 ?s = ?s"
    by (rule needs_unchanged [of "''youtube''"]) (simp_all add: rule_defs)
  have r6: "apply_rule rule6 ?s = ?s"
    by (rule needs_unchanged [of "''youtube''"]) (simp_all add: rule_defs)
  have r7: "apply_rule rule7 ?s = ?s"
    by (rule needs_unchanged [of "''.akamaized.net''"]) (simp_all add: rule_defs)
  have r8: "apply_rule rule8 ?s = ?s"
    by (rule needs_unchanged [of "''player''"]) (simp_all add: rule_defs)
  show ?thesis using r1 r2 r3 r4 r5 r6 r7 r8 by (simp add: reduce_def fuzzy_rules_def)
qed

lemma reduce_googlevideo: "reduce ''r3.googlevideo.com/videoplayback?id=abc123&itag=22'' = ''youtube.fuzzy.replayweb.page/videoplayback?id=abc123''"
proof -
  let ?s = "''r3.googlevideo.com/videoplayback?id=abc123&itag=22''"
  have r1: "apply_rule rule1 ?s = ''youtube.fuzzy.replayweb.page/videoplayback?id=abc123''" by code_simp
  show ?thesis using r1 by (simp add: reduce_def fuzzy_rules_def)
qed

lemma reduce_embed_amp: "reduce ''youtube.com/embed/a&b'' = ''youtube.fuzzy.replayweb.page/embed/a&b''"
proof -
  let ?s = "''youtube.com/embed/a&b''"
  have r1: "apply_rule rule1 ?s = ?s"
    by (rule needs_unchanged [of "''googlevideo''"]) (simp_all add: rule_defs)
  have r2: "apply_rule rule2 ?s = ?s"
    by (rule needs_unchanged [of "''get_video_info?''"]) (simp_all add: rule_defs)
  have r3: "apply_rule rule3 ?s = ?s"
    by (rule needs_unchanged [of "''?''"]) (simp_all add: rule_defs)
  have r4: "apply_rule rule4 ?s = ?s"
    by (rule needs_unchanged [of "''youtubei/''"]) (simp_all add: rule_defs)
  have r5: "apply_rule rule5 ?s = ''youtube.fuzzy.replayweb.page/embed/a&b''" by code_simp
  show ?thesis using r1 r2 r3 r4 r5 by (simp add: reduce_def fuzzy_rules_def)
qed

lemma reduce_embed_amp_again: "reduce ''youtube.fuzzy.replayweb.page/embed/a&b'' = ''youtube.fuzzy.replayweb.page/embed/a''"
proof -
  let ?s = "''youtube.fuzzy.replayweb.page/embed/a&b''"
  have r1: "apply_rule rule1 ?s = ?s"
    by (rule needs_unchanged [of "''googlevideo''"]) (simp_all add: rule_defs)
  have r2: "apply_rule rule2 ?s = ?s"
    by (rule needs_unchanged [of "''.com/''"]) (simp_all add: rule_defs)
  have r3: "apply_rule rule3 ?s = ?s"
    by (rule needs_unchanged [of "''?''"]) (simp_all add: rule_defs)
  have r4: "apply_rule rule4 ?s = ?s"
    by (rule needs_unchanged [of "''.com/''"]) (simp_all add: rule_defs)
  have r5: "apply_rule rule5 ?s = ?s"
    by (rule needs_unchanged [of "''.com/''"]) (simp_all add: rule_defs)
  have r6: "apply_rule rule6 ?s = ''youtube.fuzzy.replayweb.page/embed/a''" by code_simp
  show ?thesis using r1 r2 r3 r4 r5 r6 by (simp add: reduce_def fuzzy_rules_def)
qed

lemma reduce_embed_digits: "reduce ''www.youtube.com/embed/dQw4w9WgXcQ?123'' = ''www.youtube.com/embed/dQw4w9WgXcQ?''"
proof -
  let ?s = "''www.youtube.com/embed/dQw4w9WgXcQ?123''"
  have r1: "apply_rule rule1 ?s = ?s"
    by (rule needs_unchanged [of "''googlevideo''"]) (simp_all add: rule_defs)
  have r2: "apply_rule rule2 ?s = ?s"
    by (rule needs_unchanged [of "''get_video_info?''"]) (simp_all add: rule_defs)
  have r3: "apply_rule rule3 ?s = ''www.youtube.com/embed/dQw4w9WgXcQ?''" by code_simp
  show ?thesis using r1 r2 r3 by (simp add: reduce_def fuzzy_rules_def)
qed

lemma reduce_embed_digits_again: "reduce ''www.youtube.com/embed/dQw4w9WgXcQ?'' = ''youtube.fuzzy.replayweb.page/embed/dQw4w9WgXcQ''"
proof -
  let ?s = "''www.youtube.com/embed/dQw4w9WgXcQ?''"
  have r1: "apply_rule rule1 ?s = ?s"
    by (rule needs_unchanged [of "''googlevideo''"]) (simp_all add: rule_defs)
  have r2: "apply_rule rule2 ?s = ?s"
    by (rule needs_unchanged [of "''get_video_info?''"]) (simp_all add: rule_defs)
  have r3: "apply_rule rule3 ?s = ?s" by code_simp
  have r4: "apply_rule rule4 ?s = ?s"
    by (rule needs_unchanged [of "''youtubei/''"]) (simp_all add: rule_defs)
  have r5: "apply_rule rule5 ?s = ''youtube.fuzzy.replayweb.page/embed/dQw4w9WgXcQ''" by code_simp
  show ?thesis using r1 r2 r3 r4 r5 by (simp add: reduce_def fuzzy_rules_def)
qed

lemma reduce_js: "reduce ''a.js?123'' = ''a.js?''"
proof -
  let ?s = "''a.js?123''"
  have r1: "apply_rule rule1 ?s = ?s"
    by (rule needs_unchanged [of "''googlevideo''"]) (simp_all add: rule_defs)
  have r2: "apply_rule rule2 ?s = ?s"
    by (rule needs_unchanged [of "''youtube''"]) (simp_all add: rule_defs)
  have r3: "apply_rule rule3 ?s = ''a.js?''" by code_simp
  show ?thesis using r1 r2 r3 by (simp add: reduce_def fuzzy_rules_def)
qed

lemma reduce_query: "reduce ''example.com/x?a=1&b=2'' = ''example.com/x?a=1&b=2''"
proof -
  let ?s = "''example.com/x?a=1&b=2''"
  have r1: "apply_rule rule1 ?s = ?s"
    by (rule needs_unchanged [of "''googlevideo''"]) (simp_all add: rule_defs)
  have r2: "apply_rule rule2 ?s = ?s"
    by (rule needs_unchanged [of "''youtube''"]) (simp_all add: rule_defs)
  have r3: "apply_rule rule3 ?s = ?s" by code_simp
  have r4: "apply_rule rule4 ?s = ?s"
    by (rule needs_unchanged [of "''youtube''"]) (simp_all add: rule_defs)
  have r5: "apply_rule rule5 ?s = ?s"
    by (rule needs_unchanged [of "''youtube''"]) (simp_all add: rule_defs)
  have r6: "apply_rule rule6 ?s = ?s"
    by (rule needs_unchanged [of "''youtube''"]) (simp_all add: rule_defs)
  have r7: "apply_rule rule7 ?s = ?s"
    by (rule needs_unchanged [of "''.akamaized.net''"]) (simp_all add: rule_defs)
  have r8: "apply_rule rule8 ?s = ?s"
    by (rule needs_unchanged [of "''player''"]) (simp_all add: rule_defs)
  show ?thesis using r1 r2 r3 r4 r5 r6 r7 r8 by (simp add: reduce_def fuzzy_rules_def)
qed

lemma reduce_space: "reduce ''example.com/a b'' = ''example.com/a b''"
proof -
  let ?s = "''example.com/a b''"
  have r1: "apply_rule rule1 ?s = ?s"
    by (rule needs_unchanged [of "''googlevideo''"]) (simp_all add: rule_defs)
  have r2: "apply_rule rule2 ?s = ?s"
    by (rule needs_unchanged [of "''youtube''"]) (simp_all add: rule_defs)
  have r3: "apply_rule rule3 ?s = ?s"
    by (rule needs_unchanged [of "''?''"]) (simp_all add: rule_defs)
  have r4: "apply_rule rule4 ?s = ?s"
    by (rule needs_unchanged [of "''youtube''"]) (simp_all add: rule_defs)
  have r5: "apply_rule rule5 ?s = ?s"
    by (rule needs_unchanged [of "''youtube''"]) (simp_all add: rule_defs)
  have r6: "apply_rule rule6 ?s = ?s"
    by (rule needs_unchanged [of "''youtube''"]) (simp_all add: rule_defs)
  have r7: "apply_rule rule7 ?s = ?s"
    by (rule needs_unchanged [of "''.akamaized.net''"]) (simp_all add: rule_defs)
  have r8: "apply_rule rule8 ?s = ?s"
    by (rule needs_unchanged [of "''player''"]) (simp_all add: rule_defs)
  show ?thesis using r1 r2 r3 r4 r5 r6 r7 r8 by (simp add: reduce_def fuzzy_rules_def)
qed

lemma reduce_plain: "reduce ''example.com/x'' = ''example.com/x''"
proof -
  let ?s = "''example.com/x''"
  have r1: "apply_rule rule1 ?s = ?s"
    by (rule needs_unchanged [of "''googlevideo''"]) (simp_all add: rule_defs)
  have r2: "apply_rule rule2 ?s = ?s"
    by (rule needs_unchanged [of "''youtube''"]) (simp_all add: rule_defs)
  have r3: "apply_rule rule3 ?s = ?s"
    by (rule needs_unchanged [of "''?''"]) (simp_all add: rule_defs)
  have r4: "apply_rule rule4 ?s = ?s"
    by (rule needs_unchanged [of "''youtube''"]) (simp_all add: rule_defs)
  have r5: "apply_rule rule5 ?s = ?s"
    by (rule needs_unchanged [of "''youtube''"]) (simp_all add: rule_defs)
  have r6: "apply_rule rule6 ?s = ?s"
    by (rule needs_unchanged [of "''youtube''"]) (simp_all add: rule_defs)
  have r7: "apply_rule rule7 ?s = ?s"
    by (rule needs_unchanged [of "''.akamaized.net''"]) (simp_all add: rule_defs)
  have r8: "apply_rule rule8 ?s = ?s"
    by (rule needs_unchanged [of "''player''"]) (simp_all add: rule_defs)
  show ?thesis using r1 r2 r3 r4 r5 r6 r7 r8 by (simp add: reduce_def fuzzy_rules_def)
qed

lemma reduce_opaque: "reduce ''h/a?b=1'' = ''h/a?b=1''"
proof -
  let ?s = "''h/a?b=1''"
  have r1: "apply_rule rule1 ?s = ?s"
    by (rule needs_unchanged [of "''googlevideo''"]) (simp_all add: rule_defs)
  have r2: "apply_rule rule2 ?s = ?s"
    by (rule needs_unchanged [of "''youtube''"]) (simp_all add: rule_defs)
  have r3: "apply_rule rule3 ?s = ?s"
    by (rule needs_unchanged [of "''.''"]) (simp_all add: rule_defs)
  have r4: "apply_rule rule4 ?s = ?s"
    by (rule needs_unchanged [of "''youtube''"]) (simp_all add: rule_defs)
  have r5: "apply_rule rule5 ?s = ?s"
    by (rule needs_unchanged [of "''youtube''"]) (simp_all add: rule_defs)
  have r6: "apply_rule rule6 ?s = ?s"
    by (rule needs_unchanged [of "''youtube''"]) (simp_all add: rule_defs)
  have r7: "apply_rule rule7 ?s = ?s"
    by (rule needs_unchanged [of "''.akamaized.net''"]) (simp_all add: rule_defs)
  have r8: "apply_rule rule8 ?s = ?s"
    by (rule needs_unchanged [of "''player''"]) (simp_all add: rule_defs)
  show ?thesis using r1 r2 r3 r4 r5 r6 r7 r8 by (simp add: reduce_def fuzzy_rules_def)
qed

lemma reduce_png: "reduce ''example.com/img/a.png?123'' = ''example.com/img/a.png?''"
proof -
  let ?s = "''example.com/img/a.png?123''"
  have r1: "apply_rule rule1 ?s = ?s"
    by (rule needs_unchanged [of "''googlevideo''"]) (simp_all add: rule_defs)
  have r2: "apply_rule rule2 ?s = ?s"
    by (rule needs_unchanged [of "''youtube''"]) (simp_all add: rule_defs)
  have r3: "apply_rule rule3 ?s = ''example.com/img/a.png?''" by code_simp
  show ?thesis using r1 r2 r3 by (simp add: reduce_def fuzzy_rules_def)
qed

lemma reduce_cdn: "reduce ''cdn.example.com/a.js'' = ''cdn.example.com/a.js''"
proof -
  let ?s = "''cdn.example.com/a.js''"
  have r1: "apply_rule rule1 ?s = ?s"
    by (rule needs_unchanged [of "''googlevideo''"]) (simp_all add: rule_defs)
  have r2: "apply_rule rule2 ?s = ?s"
    by (rule needs_unchanged [of "''youtube''"]) (simp_all add: rule_defs)
  have r3: "apply_rule rule3 ?s = ?s"
    by (rule needs_unchanged [of "''?''"]) (simp_all add: rule_defs)
  have r4: "apply_rule rule4 ?s = ?s"
    by (rule needs_unchanged [of "''youtube''"]) (simp_all add: rule_defs)
  have r5: "apply_rule rule5 ?s = ?s"
    by (rule needs_unchanged [of "''youtube''"]) (simp_all add: rule_defs)
  have r6: "apply_rule rule6 ?s = ?s"
    by (rule needs_unchanged [of "''youtube''"]) (simp_all add: rule_defs)
  have r7: "apply_rule rule7 ?s = ?s"
    by (rule needs_unchanged [of "''.akamaized.net''"]) (simp_all add: rule_defs)
  have r8: "apply_rule rule8 ?s = ?s"
    by (rule needs_unchanged [of "''player''"]) (simp_all add: rule_defs)
  show ?thesis using r1 r2 r3 r4 r5 r6 r7 r8 by (simp add: reduce_def fuzzy_rules_def)
qed

lemma reduce_img: "reduce ''example.com/img/a.png'' = ''example.com/img/a.png''"
proof -
  let ?s = "''example.com/img/a.png''"
  have r1: "apply_rule rule1 ?s = ?s"
    by (rule needs_unchanged [of "''googlevideo''"]) (simp_all add: rule_defs)
  have r2: "apply_rule rule2 ?s = ?s"
    by (rule needs_unchanged [of "''youtube''"]) (simp_all add: rule_defs)
  have r3: "apply_rule rule3 ?s = ?s"
    by (rule needs_unchanged [of "''?''"]) (simp_all add: rule_defs)
  have r4: "apply_rule rule4 ?s = ?s"
    by (rule needs_unchanged [of "''youtube''"]) (simp_all add: rule_defs)
  have r5: "apply_rule rule5 ?s = ?s"
    by (rule needs_unchanged [of "''youtube''"]) (simp_all add: rule_defs)
  have r6: "apply_rule rule6 ?s = ?s"
    by (rule needs_unchanged [of "''youtube''"]) (simp_all add: rule_defs)
  have r7: "apply_rule rule7 ?s = ?s"
    by (rule needs_unchanged [of "''.akamaized.net''"]) (simp_all add: rule_defs)
  have r8: "apply_rule rule8 ?s = ?s"
    by (rule needs_unchanged [of "''player''"]) (simp_all add: rule_defs)
  show ?thesis using r1 r2 r3 r4 r5 r6 r7 r8 by (simp add: reduce_def fuzzy_rules_def)
qed

lemma pass_spec_ytimg: "\<not> passthrough ctx_spec ''https://s.ytimg.com/videoplayback?id=abc123&itag=22''"
  by code_simp

lemma abs_spec_ytimg: "absolute_url ctx_spec ''https://s.ytimg.com/videoplayback?id=abc123&itag=22'' = Inr ''https://s.ytimg.com/videoplayback?id=abc123&itag=22''"
  by code_simp

lemma entry_spec_ytimg: "entry_path ctx_spec ''https://s.ytimg.com/videoplayback?id=abc123&itag=22'' = ''s.ytimg.com/videoplayback?id=abc123&itag=22''"
  by code_simp

lemma final_spec_ytimg: "final_url ctx_spec ''s.ytimg.com/videoplayback?id=abc123&itag=22'' = Inl TypeError"
  by code_simp

lemma pass_served_ytimg: "\<not> passthrough ctx_served ''https://s.ytimg.com/videoplayback?id=abc123&itag=22''"
  by code_simp

lemma abs_served_ytimg: "absolute_url ctx_served ''https://s.ytimg.com/videoplayback?id=abc123&itag=22'' = Inr ''https://s.ytimg.com/videoplayback?id=abc123&itag=22''"
  by code_simp

lemma entry_served_ytimg: "entry_path ctx_served ''https://s.ytimg.com/videoplayback?id=abc123&itag=22'' = ''s.ytimg.com/videoplayback?id=abc123&itag=22''"
  by code_simp

lemma final_served_ytimg: "final_url ctx_served ''s.ytimg.com/videoplayback?id=abc123&itag=22'' = Inr ''http://localhost/archive/20230101/s.ytimg.com/videoplayback%3Fid%3Dabc123%26itag%3D22''"
  by code_simp

lemma pass_served_gv: "\<not> passthrough ctx_served ''https://r3.googlevideo.com/videoplayback?id=abc123&itag=22''"
  by code_simp

lemma abs_served_gv: "absolute_url ctx_served ''https://r3.googlevideo.com/videoplayback?id=abc123&itag=22'' = Inr ''https://r3.googlevideo.com/videoplayback?id=abc123&itag=22''"
  by code_simp

lemma entry_served_gv: "entry_path ctx_served ''https://r3.googlevideo.com/videoplayback?id=abc123&itag=22'' = ''r3.googlevideo.com/videoplayback?id=abc123&itag=22''"
  by code_simp

lemma final_served_gv: "final_url ctx_served ''youtube.fuzzy.replayweb.page/videoplayback?id=abc123'' = Inr ''http://localhost/archive/20230101/youtube.fuzzy.replayweb.page/videoplayback%3Fid%3Dabc123''"
  by code_simp

lemma pass_served_query: "\<not> passthrough ctx_served ''http://localhost/archive/20230101/example.com/x?a=1&b=2''"
  by code_simp

lemma abs_served_query: "absolute_url ctx_served ''http://localhost/archive/20230101/example.com/x?a=1&b=2'' = Inr ''http://localhost/archive/20230101/example.com/x?a=1&b=2''"
  by code_simp

lemma entry_served_query: "entry_path ctx_served ''http://localhost/archive/20230101/example.com/x?a=1&b=2'' = ''example.com/x?a=1&b=2''"
  by code_simp

lemma final_served_query: "final_url ctx_served ''example.com/x?a=1&b=2'' = Inr ''http://localhost/archive/20230101/example.com/x%3Fa%3D1%26b%3D2''"
  by code_simp

lemma pass_served_space: "\<not> passthrough ctx_served ''http://localhost/archive/20230101/example.com/a b''"
  by code_simp

lemma abs_served_space: "absolute_url ctx_served ''http://localhost/archive/20230101/example.com/a b'' = Inr ''http://localhost/archive/20230101/example.com/a%20b''"
  by code_simp

lemma entry_served_space: "entry_path ctx_served ''http://localhost/archive/20230101/example.com/a%20b'' = ''example.com/a%20b''"
  by code_simp

lemma reduce_space_encoded: "reduce ''example.com/a%20b'' = ''example.com/a%20b''"
proof -
  let ?s = "''example.com/a%20b''"
  have r1: "apply_rule rule1 ?s = ?s"
    by (rule needs_unchanged [of "''googlevideo''"]) (simp_all add: rule_defs)
  have r2: "apply_rule rule2 ?s = ?s"
    by (rule needs_unchanged [of "''youtube''"]) (simp_all add: rule_defs)
  have r3: "apply_rule rule3 ?s = ?s"
    by (rule needs_unchanged [of "''?''"]) (simp_all add: rule_defs)
  have r4: "apply_rule rule4 ?s = ?s"
    by (rule needs_unchanged [of "''youtube''"]) (simp_all add: rule_defs)
  have r5: "apply_rule rule5 ?s = ?s"
    by (rule needs_unchanged [of "''youtube''"]) (simp_all add: rule_defs)
  have r6: "apply_rule rule6 ?s = ?s"
    by (rule needs_unchanged [of "''youtube''"]) (simp_all add: rule_defs)
  have r7: "apply_rule rule7 ?s = ?s"
    by (rule needs_unchanged [of "''.akamaized.net''"]) (simp_all add: rule_defs)
  have r8: "apply_rule rule8 ?s = ?s"
    by (rule needs_unchanged [of "''player''"]) (simp_all add: rule_defs)
  show ?thesis using r1 r2 r3 r4 r5 r6 r7 r8 by (simp add: reduce_def fuzzy_rules_def)
qed

lemma final_served_space: "final_url ctx_served ''example.com/a%20b'' = Inr ''http://localhost/archive/20230101/example.com/a%20b''"
  by code_simp

lemma scheme_http: "is_scheme ''http''"
  by code_simp

lemma scheme_https: "is_scheme ''https''"
  by code_simp

lemma parses_current: "parses ''https://example.com/v''"
  by code_simp

lemma serialized_plain: "serialized ''http://localhost/archive/20230101/example.com/x''"
  by code_simp

lemma pass_opaque: "\<not> passthrough (ctx_served\<lparr>prefix := ''x:''\<rparr>) ''http://h/a?b=1''"
  by code_simp

lemma abs_opaque: "absolute_url (ctx_served\<lparr>prefix := ''x:''\<rparr>) ''http://h/a?b=1'' = Inr ''http://h/a?b=1''"
  by code_simp

lemma entry_opaque: "entry_path (ctx_served\<lparr>prefix := ''x:''\<rparr>) ''http://h/a?b=1'' = ''h/a?b=1''"
  by code_simp

lemma final_opaque: "final_url (ctx_served\<lparr>prefix := ''x:''\<rparr>) ''h/a?b=1'' = Inr ''x:h/a''"
  by code_simp

lemma pass_served_png: "\<not> passthrough ctx_served ''/img/a.png?123''"
  by code_simp

lemma abs_served_png: "absolute_url ctx_served ''/img/a.png?123'' = Inr ''https://example.com/img/a.png?123''"
  by code_simp

lemma entry_served_png: "entry_path ctx_served ''https://example.com/img/a.png?123'' = ''example.com/img/a.png?123''"
  by code_simp

lemma final_served_png: "final_url ctx_served ''example.com/img/a.png?'' = Inr ''http://localhost/archive/20230101/example.com/img/a.png?''"
  by code_simp

lemma parse_example: "URL_new (prefix ctx_served @ ''example.com/x?a=1&b=2'') None = Inr url_example"
  by code_simp

lemma search_example: "search url_example = ''?a=1&b=2''"
  by code_simp

lemma opaque_example: "\<not> has_opaque_path url_example"
  by code_simp

lemma encode_example: "encodeURIComponent ''?a=1&b=2'' = ''%3Fa%3D1%26b%3D2''"
  by code_simp

lemma href_example: "href (fold_query url_example) = ''http://localhost/archive/20230101/example.com/x%3Fa%3D1%26b%3D2''"
  by code_simp

lemma pass_served_cdn: "\<not> passthrough ctx_served ''//cdn.example.com/a.js''"
  by code_simp

lemma pass_served_root: "\<not> passthrough ctx_served ''/img/a.png''"
  by code_simp

lemma pass_served_rel: "\<not> passthrough ctx_served ''img/a.png''"
  by code_simp

lemma starts_cdn: "startsWith ''//cdn.example.com/a.js'' ''//''"
  by code_simp

lemma starts_root: "\<not> startsWith ''/img/a.png'' ''//'' \<and> startsWith ''/img/a.png'' ''/''"
  by code_simp

lemma starts_rel: "\<not> startsWith ''img/a.png'' ''/''"
  by code_simp

lemma new_root: "(case URL_new ''/img/a.png'' (Some (orig_url ctx_served)) of Inl e \<Rightarrow> Inl e | Inr u \<Rightarrow> Inr (href u)) = Inr ''https://example.com/img/a.png''"
  by code_simp

lemma new_rel: "(case URL_new ''img/a.png'' (Some (current_url ctx_served)) of Inl e \<Rightarrow> Inl e | Inr u \<Rightarrow> Inr (href u)) = Inr ''https://example.com/img/a.png''"
  by code_simp

lemma new_abs: "(case URL_new ''https://s.ytimg.com/videoplayback?id=abc123&itag=22'' None of Inl e \<Rightarrow> Inl e | Inr u \<Rightarrow> Inr (href u)) = Inr ''https://s.ytimg.com/videoplayback?id=abc123&itag=22''"
  by code_simp

lemma parses_current_served: "parses (current_url ctx_served)"
  by code_simp

lemma entry_served_cdn: "entry_path ctx_served ''https://cdn.example.com/a.js'' = ''cdn.example.com/a.js''"
  by code_simp

lemma final_served_cdn: "final_url ctx_served ''cdn.example.com/a.js'' = Inr ''http://localhost/archive/20230101/cdn.example.com/a.js''"
  by code_simp






subsection \<open>C1: the scenario of the specification\<close>

text \<open>
  C1, as stated, fails. With the context of the scenario the serving prefix
  \<^verbatim>\<open>/archive/20230101/\<close> is not an absolute URL, so \<^verbatim>\<open>new URL(final_url)\<close> throws
  and the call returns nothing. The input's host \<^verbatim>\<open>s.ytimg.com\<close> is also not one that
  rule 1 matches: the entry's path stays as it is.
\<close>

theorem scenario_ytimg_counterexample:
  "reduce ''s.ytimg.com/videoplayback?id=abc123&itag=22'' =
     ''s.ytimg.com/videoplayback?id=abc123&itag=22'' \<and>
   urlRewriteFunction ctx_spec (Some ''https://s.ytimg.com/videoplayback?id=abc123&itag=22'') () () () =
     Inl TypeError \<and>
   urlRewriteFunction ctx_spec (Some ''https://s.ytimg.com/videoplayback?id=abc123&itag=22'') () () () \<noteq>
     Inr (Some ''/archive/20230101/youtube.fuzzy.replayweb.page/videoplayback?id=abc123'')"
  using rewrite_steps [OF pass_spec_ytimg abs_spec_ytimg, of _ "()" "()" "()"]
  by (simp add: entry_spec_ytimg reduce_ytimg final_spec_ytimg)

text \<open>
  C1, amended. With the same context served from the absolute prefix
  \<^verbatim>\<open>http://localhost/archive/20230101/\<close>, the input
  \<^verbatim>\<open>https://r3.googlevideo.com/videoplayback?id=abc123&itag=22\<close> returns
  \<^verbatim>\<open>http://localhost/archive/20230101/youtube.fuzzy.replayweb.page/videoplayback%3Fid%3Dabc123\<close>:
  the template of rule 1, every query parameter but \<^verbatim>\<open>id\<close> dropped, and the query
  folded into the path. The input of the scenario, whose host is \<^verbatim>\<open>s.ytimg.com\<close>,
  matches no rule and returns its own path and query under the prefix.
\<close>

theorem scenario_googlevideo:
  "urlRewriteFunction ctx_served (Some ''https://r3.googlevideo.com/videoplayback?id=abc123&itag=22'') () () () =
     Inr (Some ''http://localhost/archive/20230101/youtube.fuzzy.replayweb.page/videoplayback%3Fid%3Dabc123'') \<and>
   urlRewriteFunction ctx_served (Some ''https://s.ytimg.com/videoplayback?id=abc123&itag=22'') () () () =
     Inr (Some ''http://localhost/archive/20230101/s.ytimg.com/videoplayback%3Fid%3Dabc123%26itag%3D22'')"
  using rewrite_steps [OF pass_served_gv abs_served_gv, of _ "()" "()" "()"]
    rewrite_steps [OF pass_served_ytimg abs_served_ytimg, of _ "()" "()" "()"]
  by (simp add: entry_served_gv reduce_googlevideo final_served_gv
      entry_served_ytimg reduce_ytimg final_served_ytimg)

subsection \<open>C2: idempotence of \<open>reduce\<close>\<close>

text \<open>
  C2, as stated, fails. Rule 5 takes the id of an embed URL up to the first \<^verbatim>\<open>?\<close>,
  rule 6 up to the first \<^verbatim>\<open>?\<close> or \<^verbatim>\<open>&\<close>: on an id with \<^verbatim>\<open>&\<close> the second
  pass cuts what the first kept. And rule 3, which comes before rule 5, takes the digits
  off an embed URL with a numeric query, so that only the second pass reaches rule 5.
\<close>

theorem reduce_not_idempotent:
  "reduce (reduce ''youtube.com/embed/a&b'') \<noteq> reduce ''youtube.com/embed/a&b'' \<and>
   reduce ''youtube.com/embed/a&b'' = ''youtube.fuzzy.replayweb.page/embed/a&b'' \<and>
   reduce (reduce ''youtube.com/embed/a&b'') = ''youtube.fuzzy.replayweb.page/embed/a'' \<and>
   reduce (reduce ''www.youtube.com/embed/dQw4w9WgXcQ?123'') \<noteq>
     reduce ''www.youtube.com/embed/dQw4w9WgXcQ?123''"
  by (simp add: reduce_embed_amp reduce_embed_amp_again reduce_embed_digits
      reduce_embed_digits_again)

lemma videoplayback_form_fixed:
  assumes "list_all path_free v"
  shows "fixed_point (''youtube.fuzzy.replayweb.page/videoplayback?id='' @ v)"
proof -
  let ?s = "''youtube.fuzzy.replayweb.page/videoplayback?id='' @ v"
  let ?A = "map Fix ''youtube.fuzzy.replayweb.page/videoplayback?id='' @ [Rep path_free]"
  have c: "conc ?A ?s" using assms by (intro conc1) simp_all
  have r1: "apply_rule rule1 ?s = ?s"
    by (rule needs_absent [of "''com/''" _ ?A, OF _ c]) (simp add: rule_defs, code_simp)
  have r2: "apply_rule rule2 ?s = ?s"
    by (rule needs_absent [of "''.com/''" _ ?A, OF _ c]) (simp add: rule_defs, code_simp)
  have q: "CHR ''?'' \<notin> set (''id='' @ v)" "\<not> list_all is_digit (''id='' @ v)"
    using assms by (auto simp: list_all_iff path_free_def is_digit_def)
  have r3: "apply_rule rule3 ?s = ?s"
    using rule3_tail [of "''id='' @ v" "''youtube.fuzzy.replayweb.page/videoplayback''"] q by simp
  have r4: "apply_rule rule4 ?s = ?s"
    by (rule needs_absent [of "''.com/''" _ ?A, OF _ c]) (simp add: rule_defs, code_simp)
  have r5: "apply_rule rule5 ?s = ?s"
    by (rule needs_absent [of "''.com/''" _ ?A, OF _ c]) (simp add: rule_defs, code_simp)
  have r6: "apply_rule rule6 ?s = ?s"
    by (rule needs_absent [of "''page/embed/''" _ ?A, OF _ c]) (simp add: rule_defs, code_simp)
  have r7: "apply_rule rule7 ?s = ?s"
    by (rule needs_absent [of "''.akamaized.net''" _ ?A, OF _ c]) (simp add: rule_defs, code_simp)
  have r8: "apply_rule rule8 ?s = ?s"
    by (rule needs_absent [of "''com/''" _ ?A, OF _ c]) (simp add: rule_defs, code_simp)
  show ?thesis using r1 r2 r3 r4 r5 r6 r7 r8 by (simp add: fixed_point_def reduce_def fuzzy_rules_def)
qed

lemma video_info_form_fixed:
  assumes "list_all path_free v"
  shows "fixed_point (''youtube.fuzzy.replayweb.page/get_video_info?video_id='' @ v)"
proof -
  let ?s = "''youtube.fuzzy.replayweb.page/get_video_info?video_id='' @ v"
  let ?A = "map Fix ''youtube.fuzzy.replayweb.page/get_video_info?video_id='' @ [Rep path_free]"
  have c: "conc ?A ?s" using assms by (intro conc1) simp_all
  have r1: "apply_rule rule1 ?s = ?s"
    by (rule needs_absent [of "''com/''" _ ?A, OF _ c]) (simp add: rule_defs, code_simp)
  have r2: "apply_rule rule2 ?s = ?s"
    by (rule needs_absent [of "''.com/''" _ ?A, OF _ c]) (simp add: rule_defs, code_simp)
  have q: "CHR ''?'' \<notin> set (''video_id='' @ v)" "\<not> list_all is_digit (''video_id='' @ v)"
    using assms by (auto simp: list_all_iff path_free_def is_digit_def)
  have r3: "apply_rule rule3 ?s = ?s"
    using rule3_tail [of "''video_id='' @ v" "''youtube.fuzzy.replayweb.page/get_video_info''"] q by simp
  have r4: "apply_rule rule4 ?s = ?s"
    by (rule needs_absent [of "''.com/''" _ ?A, OF _ c]) (simp add: rule_defs, code_simp)
  have r5: "apply_rule rule5 ?s = ?s"
    by (rule needs_absent [of "''.com/''" _ ?A, OF _ c]) (simp add: rule_defs, code_simp)
  have r6: "apply_rule rule6 ?s = ?s"
    by (rule needs_absent [of "''page/embed/''" _ ?A, OF _ c]) (simp add: rule_defs, code_simp)
  have r7: "apply_rule rule7 ?s = ?s"
    by (rule needs_absent [of "''.akamaized.net''" _ ?A, OF _ c]) (simp add: rule_defs, code_simp)
  have r8: "apply_rule rule8 ?s = ?s"
    by (rule needs_absent [of "''com/''" _ ?A, OF _ c]) (simp add: rule_defs, code_simp)
  show ?thesis using r1 r2 r3 r4 r5 r6 r7 r8 by (simp add: fixed_point_def reduce_def fuzzy_rules_def)
qed

lemma youtubei_form_fixed:
  assumes "list_all plain x" "list_all plain y" "list_all plain w"
  shows "fixed_point (''youtube.fuzzy.replayweb.page/youtubei/'' @ x @ ''/'' @ y @ ''?videoId='' @ w)"
proof -
  let ?s = "''youtube.fuzzy.replayweb.page/youtubei/'' @ x @ ''/'' @ y @ ''?videoId='' @ w"
  let ?A = "map Fix ''youtube.fuzzy.replayweb.page/youtubei/'' @ [Rep plain] @ map Fix ''/'' @ [Rep plain] @ map Fix ''?videoId='' @ [Rep plain]"
  have c: "conc ?A ?s" using assms by (intro conc3) simp_all
  have r1: "apply_rule rule1 ?s = ?s"
    by (rule needs_absent [of "''id=''" _ ?A, OF _ c]) (simp add: rule_defs, code_simp)
  have r2: "apply_rule rule2 ?s = ?s"
    by (rule needs_absent [of "''.com/''" _ ?A, OF _ c]) (simp add: rule_defs, code_simp)
  have q: "CHR ''?'' \<notin> set (''videoId='' @ w)" "\<not> list_all is_digit (''videoId='' @ w)"
    using assms by (auto simp: list_all_iff plain_def is_digit_def)
  have r3: "apply_rule rule3 ?s = ?s"
    using rule3_tail [of "''videoId='' @ w" "''youtube.fuzzy.replayweb.page/youtubei/'' @ x @ ''/'' @ y"] q by simp
  have r4: "apply_rule rule4 ?s = ?s"
    by (rule needs_absent [of "''.com/''" _ ?A, OF _ c]) (simp add: rule_defs, code_simp)
  have r5: "apply_rule rule5 ?s = ?s"
    by (rule needs_absent [of "''.com/''" _ ?A, OF _ c]) (simp add: rule_defs, code_simp)
  have r6: "apply_rule rule6 ?s = ?s"
    by (rule needs_absent [of "''page/embed/''" _ ?A, OF _ c]) (simp add: rule_defs, code_simp)
  have r7: "apply_rule rule7 ?s = ?s"
    by (rule needs_absent [of "''.akamaized.net''" _ ?A, OF _ c]) (simp add: rule_defs, code_simp)
  have r8: "apply_rule rule8 ?s = ?s"
    by (rule needs_absent [of "''com/video/''" _ ?A, OF _ c]) (simp add: rule_defs, code_simp)
  show ?thesis using r1 r2 r3 r4 r5 r6 r7 r8 by (simp add: fixed_point_def reduce_def fuzzy_rules_def)
qed

lemma vimeo_cdn_form_fixed:
  assumes "list_all digit_or_slash d"
  shows "fixed_point (''vimeo-cdn.fuzzy.replayweb.page/'' @ d @ ''.mp4'')"
proof -
  let ?s = "''vimeo-cdn.fuzzy.replayweb.page/'' @ d @ ''.mp4''"
  let ?A = "map Fix ''vimeo-cdn.fuzzy.replayweb.page/'' @ [Rep digit_or_slash] @ map Fix ''.mp4''"
  have c: "conc ?A ?s" using assms by (intro conc1b) simp_all
  have r1: "apply_rule rule1 ?s = ?s"
    by (rule needs_absent [of "''com/''" _ ?A, OF _ c]) (simp add: rule_defs, code_simp)
  have r2: "apply_rule rule2 ?s = ?s"
    by (rule needs_absent [of "''.com/''" _ ?A, OF _ c]) (simp add: rule_defs, code_simp)
  have r3: "apply_rule rule3 ?s = ?s"
    by (rule needs_absent [of "''?''" _ ?A, OF _ c]) (simp add: rule_defs, code_simp)
  have r4: "apply_rule rule4 ?s = ?s"
    by (rule needs_absent [of "''.com/''" _ ?A, OF _ c]) (simp add: rule_defs, code_simp)
  have r5: "apply_rule rule5 ?s = ?s"
    by (rule needs_absent [of "''.com/''" _ ?A, OF _ c]) (simp add: rule_defs, code_simp)
  have r6: "apply_rule rule6 ?s = ?s"
    by (rule needs_absent [of "''page/embed/''" _ ?A, OF _ c]) (simp add: rule_defs, code_simp)
  have r7: "apply_rule rule7 ?s = ?s"
    by (rule needs_absent [of "''.akamaized.net''" _ ?A, OF _ c]) (simp add: rule_defs, code_simp)
  have r8: "apply_rule rule8 ?s = ?s"
    by (rule needs_absent [of "''com/''" _ ?A, OF _ c]) (simp add: rule_defs, code_simp)
  show ?thesis using r1 r2 r3 r4 r5 r6 r7 r8 by (simp add: fixed_point_def reduce_def fuzzy_rules_def)
qed

lemma vimeo_form_fixed:
  assumes "list_all is_digit n"
  shows "fixed_point (''vimeo.fuzzy.replayweb.page/video/'' @ n)"
proof -
  let ?s = "''vimeo.fuzzy.replayweb.page/video/'' @ n"
  let ?A = "map Fix ''vimeo.fuzzy.replayweb.page/video/'' @ [Rep is_digit]"
  have c: "conc ?A ?s" using assms by (intro conc1) simp_all
  have r1: "apply_rule rule1 ?s = ?s"
    by (rule needs_absent [of "''com/''" _ ?A, OF _ c]) (simp add: rule_defs, code_simp)
  have r2: "apply_rule rule2 ?s = ?s"
    by (rule needs_absent [of "''.com/''" _ ?A, OF _ c]) (simp add: rule_defs, code_simp)
  have r3: "apply_rule rule3 ?s = ?s"
    by (rule needs_absent [of "''?''" _ ?A, OF _ c]) (simp add: rule_defs, code_simp)
  have r4: "apply_rule rule4 ?s = ?s"
    by (rule needs_absent [of "''.com/''" _ ?A, OF _ c]) (simp add: rule_defs, code_simp)
  have r5: "apply_rule rule5 ?s = ?s"
    by (rule needs_absent [of "''.com/''" _ ?A, OF _ c]) (simp add: rule_defs, code_simp)
  have r6: "apply_rule rule6 ?s = ?s"
    by (rule needs_absent [of "''page/embed/''" _ ?A, OF _ c]) (simp add: rule_defs, code_simp)
  have r7: "apply_rule rule7 ?s = ?s"
    by (rule needs_absent [of "''.akamaized.net''" _ ?A, OF _ c]) (simp add: rule_defs, code_simp)
  have r8: "apply_rule rule8 ?s = ?s"
    by (rule needs_absent [of "''com/''" _ ?A, OF _ c]) (simp add: rule_defs, code_simp)
  show ?thesis using r1 r2 r3 r4 r5 r6 r7 r8 by (simp add: fixed_point_def reduce_def fuzzy_rules_def)
qed

lemma embed_form_fixed:
  assumes "CHR ''?'' \<notin> set v" "CHR ''&'' \<notin> set v" "CHR ''.'' \<notin> set v"
  shows "fixed_point (embed_prefix @ v)"
proof -
  let ?s = "embed_prefix @ v"
  have "apply_rule rule1 ?s = ?s"
    by (rule needs_unchanged [of "''?''"]) (simp_all add: rule_defs embed_no_question assms)
  moreover have "apply_rule rule2 ?s = ?s"
    by (rule needs_unchanged [of "''?''"]) (simp_all add: rule_defs embed_no_question assms)
  moreover have "apply_rule rule3 ?s = ?s"
    by (rule needs_unchanged [of "''?''"]) (simp_all add: rule_defs embed_no_question assms)
  moreover have "apply_rule rule4 ?s = ?s"
    by (rule needs_unchanged [of "''.c''"]) (simp_all add: rule_defs embed_no_dot_c assms)
  moreover have "apply_rule rule5 ?s = ?s"
    by (rule needs_unchanged [of "''.c''"]) (simp_all add: rule_defs embed_no_dot_c assms)
  moreover have "apply_rule rule6 ?s = ?s" using assms by (simp add: rule6_identity)
  moreover have "apply_rule rule7 ?s = ?s"
    by (rule needs_unchanged [of "''.a''"]) (simp_all add: rule_defs embed_no_dot_a assms)
  moreover have "apply_rule rule8 ?s = ?s"
    by (rule needs_unchanged [of "''?''"]) (simp_all add: rule_defs embed_no_question assms)
  ultimately show ?thesis by (simp add: fixed_point_def reduce_def fuzzy_rules_def)
qed

lemma question_mark_form_fixed:
  assumes "list_all (\<lambda>r. apply_rule r (q @ ''?'') = q @ ''?'')
             [rule1, rule2, rule4, rule5, rule6, rule7, rule8]"
  shows "fixed_point (q @ ''?'')"
  using assms rule3_tail [of "[]" q]
  by (simp add: fixed_point_def reduce_def fuzzy_rules_def)

text \<open>
  C2, amended. \<open>reduce\<close> is not idempotent on every path, but it returns as it is,
  so that reducing again changes nothing, every canonical form that the rules write
  with values of the usual shape:
  \<^item> rule 1, \<^verbatim>\<open>youtube.fuzzy.replayweb.page/videoplayback?id=\<close> and rule 2,
    \<^verbatim>\<open>youtube.fuzzy.replayweb.page/get_video_info?video_id=\<close>, followed by a value that
    holds none of \<^verbatim>\<open>? . /\<close>;
  \<^item> rule 4, \<^verbatim>\<open>youtube.fuzzy.replayweb.page/youtubei/x/y?videoId=w\<close> where \<open>x\<close>, \<open>y\<close>
    and \<open>w\<close> hold none of \<^verbatim>\<open>? . / =\<close>;
  \<^item> rules 5 and 6, \<^verbatim>\<open>youtube.fuzzy.replayweb.page/embed/\<close> followed by an id that
    holds none of \<^verbatim>\<open>? & .\<close> (rule 6 matches and writes the same string);
  \<^item> rule 7, \<^verbatim>\<open>vimeo-cdn.fuzzy.replayweb.page/\<close>, digits and slashes, \<^verbatim>\<open>.mp4\<close>;
  \<^item> rule 8, \<^verbatim>\<open>vimeo.fuzzy.replayweb.page/video/\<close> followed by digits;
  \<^item> rule 3: a path that ends in \<^verbatim>\<open>?\<close> is never changed by rule 3, and is returned as
    it is whenever none of the other seven rules changes it.
\<close>

theorem canonical_forms_fixed:
  "(list_all path_free v \<longrightarrow>
      fixed_point (''youtube.fuzzy.replayweb.page/videoplayback?id='' @ v) \<and>
      fixed_point (''youtube.fuzzy.replayweb.page/get_video_info?video_id='' @ v)) \<and>
   (list_all plain x \<and> list_all plain y \<and> list_all plain w \<longrightarrow>
      fixed_point (''youtube.fuzzy.replayweb.page/youtubei/'' @ x @ ''/'' @ y @ ''?videoId='' @ w)) \<and>
   (CHR ''?'' \<notin> set i \<and> CHR ''&'' \<notin> set i \<and> CHR ''.'' \<notin> set i \<longrightarrow>
      fixed_point (''youtube.fuzzy.replayweb.page/embed/'' @ i)) \<and>
   (list_all digit_or_slash d \<longrightarrow>
      fixed_point (''vimeo-cdn.fuzzy.replayweb.page/'' @ d @ ''.mp4'')) \<and>
   (list_all is_digit n \<longrightarrow> fixed_point (''vimeo.fuzzy.replayweb.page/video/'' @ n)) \<and>
   apply_rule rule3 (q @ ''?'') = q @ ''?'' \<and>
   (list_all (\<lambda>r. apply_rule r (q @ ''?'') = q @ ''?'')
      [rule1, rule2, rule4, rule5, rule6, rule7, rule8] \<longrightarrow> fixed_point (q @ ''?''))"
proof -
  have e: "CHR ''?'' \<notin> set i \<and> CHR ''&'' \<notin> set i \<and> CHR ''.'' \<notin> set i \<longrightarrow>
      fixed_point (''youtube.fuzzy.replayweb.page/embed/'' @ i)"
    using embed_form_fixed [of i] by (simp add: embed_prefix_def)
  have t: "apply_rule rule3 (q @ ''?'') = q @ ''?''" using rule3_tail [of "[]" q] by simp
  show ?thesis
    using videoplayback_form_fixed [of v] video_info_form_fixed [of v]
      youtubei_form_fixed [of x y w] e vimeo_cdn_form_fixed [of d] vimeo_form_fixed [of n]
      t question_mark_form_fixed [of q]
    by blast
qed

theorem canonical_forms_fixed_witness:
  "reduce ''youtube.fuzzy.replayweb.page/videoplayback?id=abc123'' =
     ''youtube.fuzzy.replayweb.page/videoplayback?id=abc123'' \<and>
   reduce ''youtube.fuzzy.replayweb.page/get_video_info?video_id=abc123'' =
     ''youtube.fuzzy.replayweb.page/get_video_info?video_id=abc123'' \<and>
   reduce ''youtube.fuzzy.replayweb.page/youtubei/v1/player?videoId=abc123'' =
     ''youtube.fuzzy.replayweb.page/youtubei/v1/player?videoId=abc123'' \<and>
   reduce ''youtube.fuzzy.replayweb.page/embed/dQw4w9WgXcQ'' =
     ''youtube.fuzzy.replayweb.page/embed/dQw4w9WgXcQ'' \<and>
   reduce (reduce ''youtube.fuzzy.replayweb.page/embed/dQw4w9WgXcQ'') =
     reduce ''youtube.fuzzy.replayweb.page/embed/dQw4w9WgXcQ'' \<and>
   reduce ''vimeo-cdn.fuzzy.replayweb.page/123/45/6.mp4'' =
     ''vimeo-cdn.fuzzy.replayweb.page/123/45/6.mp4'' \<and>
   reduce ''vimeo.fuzzy.replayweb.page/video/12345'' = ''vimeo.fuzzy.replayweb.page/video/12345'' \<and>
   reduce ''example.com/img/a.png?'' = ''example.com/img/a.png?''"
proof -
  have 1: "list_all path_free ''abc123''" by code_simp
  have 2: "list_all plain ''v1'' \<and> list_all plain ''player'' \<and> list_all plain ''abc123''"
    by code_simp
  have 3: "CHR ''?'' \<notin> set ''dQw4w9WgXcQ'' \<and> CHR ''&'' \<notin> set ''dQw4w9WgXcQ'' \<and>
     CHR ''.'' \<notin> set ''dQw4w9WgXcQ''" by simp
  have 4: "list_all digit_or_slash ''123/45/6''" by code_simp
  have 5: "list_all is_digit ''12345''" by code_simp
  let ?q = "''example.com/img/a.png?''"
  have r1: "apply_rule rule1 ?q = ?q"
    by (rule needs_unchanged [of "''googlevideo''"]) (simp_all add: rule_defs)
  have r2: "apply_rule rule2 ?q = ?q"
    by (rule needs_unchanged [of "''youtube''"]) (simp_all add: rule_defs)
  have r4: "apply_rule rule4 ?q = ?q"
    by (rule needs_unchanged [of "''youtube''"]) (simp_all add: rule_defs)
  have r5: "apply_rule rule5 ?q = ?q"
    by (rule needs_unchanged [of "''youtube''"]) (simp_all add: rule_defs)
  have r6: "apply_rule rule6 ?q = ?q"
    by (rule needs_unchanged [of "''youtube''"]) (simp_all add: rule_defs)
  have r7: "apply_rule rule7 ?q = ?q"
    by (rule needs_unchanged [of "''.akamaized.net''"]) (simp_all add: rule_defs)
  have r8: "apply_rule rule8 ?q = ?q"
    by (rule needs_unchanged [of "''player''"]) (simp_all add: rule_defs)
  have 6: "list_all (\<lambda>r. apply_rule r (''example.com/img/a.png'' @ ''?'') =
      ''example.com/img/a.png'' @ ''?'') [rule1, rule2, rule4, rule5, rule6, rule7, rule8]"
    using r1 r2 r4 r5 r6 r7 r8 by simp
  show ?thesis
    using canonical_forms_fixed [of "''abc123''" "''v1''" "''player''" "''abc123''"
        "''dQw4w9WgXcQ''" "''123/45/6''" "''12345''" "''example.com/img/a.png''"]
      1 2 3 4 5 6
    by (simp add: fixed_point_def)
qed

subsection \<open>C3: the first rule that changes the path\<close>

text \<open>
  C3. The rules are scanned in the order of \<open>fuzzy_rules\<close> and the scan returns the
  result of the first rule whose application changes the path (the path itself when
  there is none). In particular, on every path that rule 1 and rule 3 both change,
  \<open>reduce\<close> returns what rule 1 makes of it.
\<close>

theorem first_changing_rule_wins:
  "(apply_rule rule1 p \<noteq> p \<and> apply_rule rule3 p \<noteq> p \<longrightarrow> reduce p = apply_rule rule1 p) \<and>
   reduce p = (case find (\<lambda>r. apply_rule r p \<noteq> p) fuzzy_rules of
                 None \<Rightarrow> p | Some r \<Rightarrow> apply_rule r p)"
  by (simp add: reduce_def reduce_loop_find) (simp add: fuzzy_rules_def)

theorem first_changing_rule_wins_witness:
  "apply_rule rule1 ''googlevideo.com/videoplayback?id=a.b?1'' \<noteq>
     ''googlevideo.com/videoplayback?id=a.b?1'' \<and>
   apply_rule rule3 ''googlevideo.com/videoplayback?id=a.b?1'' \<noteq>
     ''googlevideo.com/videoplayback?id=a.b?1'' \<and>
   apply_rule rule3 ''googlevideo.com/videoplayback?id=a.b?1'' \<noteq>
     apply_rule rule1 ''googlevideo.com/videoplayback?id=a.b?1'' \<and>
   reduce ''googlevideo.com/videoplayback?id=a.b?1'' =
     ''youtube.fuzzy.replayweb.page/videoplayback?id=a.b?1''"
  using first_changing_rule_wins [of "''googlevideo.com/videoplayback?id=a.b?1''"]
  by (simp add: rule1_both rule3_both)

subsection \<open>C4: the numeric suffix\<close>

text \<open>
  C4, as stated, fails: the group that rule 3 puts back ends with the \<^verbatim>\<open>?\<close>, so the
  result is everything up to and including the \<^verbatim>\<open>?\<close>, not everything before it.
\<close>

theorem cache_buster_keeps_question_mark:
  "reduce ''a.js?123'' = ''a.js?'' \<and> reduce ''a.js?123'' \<noteq> ''a.js''"
  by (simp add: reduce_js)

text \<open>
  C4, amended. For every path that ends in a dot, an extension (one character or more,
  none of them \<^verbatim>\<open>?\<close>), a \<^verbatim>\<open>?\<close> and one digit or more, and that rules 1 and 2
  leave as it is, \<open>reduce\<close> takes the digits off and returns everything up to and
  including the \<^verbatim>\<open>?\<close>.
\<close>

theorem cache_buster_suffix:
  assumes "e \<noteq> []" "CHR ''?'' \<notin> set e" "ds \<noteq> []" "list_all is_digit ds"
    and "apply_rule rule1 (pre @ CHR ''.'' # e @ CHR ''?'' # ds) = pre @ CHR ''.'' # e @ CHR ''?'' # ds"
    and "apply_rule rule2 (pre @ CHR ''.'' # e @ CHR ''?'' # ds) = pre @ CHR ''.'' # e @ CHR ''?'' # ds"
  shows "reduce (pre @ CHR ''.'' # e @ CHR ''?'' # ds) = pre @ CHR ''.'' # e @ ''?''"
  using assms rule3_strips [OF assms(1-4), of pre]
  by (simp add: reduce_def fuzzy_rules_def)

theorem cache_buster_suffix_witness:
  "reduce ''img/logo.png?20230101'' = ''img/logo.png?''"
proof -
  let ?s = "''img/logo.png?20230101''"
  have r1: "apply_rule rule1 ?s = ?s"
    by (rule needs_unchanged [of "''googlevideo''"]) (simp_all add: rule_defs)
  have r2: "apply_rule rule2 ?s = ?s"
    by (rule needs_unchanged [of "''youtube''"]) (simp_all add: rule_defs)
  have d: "list_all is_digit ''20230101''" by code_simp
  show ?thesis
    using cache_buster_suffix [of "''png''" "''20230101''" "''img/logo''"] r1 r2 d by simp
qed

subsection \<open>C5: URLs that are already rewritten\<close>

text \<open>
  C5, as stated, fails. An entry path with a query is not returned as it is: the query
  is folded into the path. And the URL parser writes the URL in its own form, so a path
  with a space comes back percent-encoded.
\<close>

theorem prefix_round_trip_counterexample:
  "reduce ''example.com/x?a=1&b=2'' = ''example.com/x?a=1&b=2'' \<and>
   urlRewriteFunction ctx_served (Some (prefix ctx_served @ ''example.com/x?a=1&b=2'')) () () () =
     Inr (Some ''http://localhost/archive/20230101/example.com/x%3Fa%3D1%26b%3D2'') \<and>
   urlRewriteFunction ctx_served (Some (prefix ctx_served @ ''example.com/x?a=1&b=2'')) () () () \<noteq>
     Inr (Some (prefix ctx_served @ ''example.com/x?a=1&b=2'')) \<and>
   reduce ''example.com/a b'' = ''example.com/a b'' \<and>
   urlRewriteFunction ctx_served (Some (prefix ctx_served @ ''example.com/a b'')) () () () =
     Inr (Some ''http://localhost/archive/20230101/example.com/a%20b'')"
proof -
  have p: "prefix ctx_served = ''http://localhost/archive/20230101/''"
    by (simp add: ctx_served_def)
  show ?thesis
    using rewrite_steps [OF pass_served_query abs_served_query, of _ "()" "()" "()"]
      rewrite_steps [OF pass_served_space abs_served_space, of _ "()" "()" "()"]
    by (simp add: p reduce_query reduce_space entry_served_query final_served_query
        entry_served_space reduce_space_encoded final_served_space)
qed

text \<open>
  C5, amended. Let the serving prefix be an absolute URL (a scheme, \<^verbatim>\<open>://\<close> and more)
  and let the current URL parse. For every entry path \<open>p\<close> that no fuzzy rule changes,
  if the serving prefix followed by \<open>p\<close> parses to a URL without a query whose
  string is the same again, then the rewrite function returns it as it is.
\<close>

theorem prefix_round_trip:
  assumes "reduce p = p" "is_scheme sch" "prefix ctx = sch @ ''://'' @ rest"
    and "parses (current_url ctx)" "serialized (prefix ctx @ p)"
  shows "urlRewriteFunction ctx (Some (prefix ctx @ p)) useRel mod' doc = Inr (Some (prefix ctx @ p))"
proof (cases "passthrough ctx (prefix ctx @ p)")
  case True
  then show ?thesis by (rule rewrite_passthrough)
next
  case False
  let ?s = "prefix ctx @ p"
  obtain u where u: "URL_new ?s None = Inr u" "href u = ?s" "search u = []"
    using assms(5) by (auto simp: serialized_def split: sum.splits)
  obtain b where b: "URL_new (current_url ctx) None = Inr b"
    using assms(4) by (auto simp: parses_def split: sum.splits)
  obtain c cs where sch: "sch = c # cs" "is_alpha c"
    using assms(2) by (auto simp: is_scheme_def split: list.splits)
  have form: "?s = sch @ ''://'' @ (rest @ p)" using assms(3) by simp
  have "c \<noteq> CHR ''/''" using sch(2) alpha_not_slash by blast
  then have ns: "\<not> startsWith ?s ''//''" "\<not> startsWith ?s ''/''"
    unfolding form sch(1) by (simp_all add: startsWith_def)
  have "URL_new ?s (Some (current_url ctx)) = URL_new ?s None"
    unfolding form using URL_new_absolute [OF assms(2) b] .
  then have a: "absolute_url ctx ?s = Inr ?s" using ns u by (simp add: absolute_url_def)
  have e: "reduce (entry_path ctx ?s) = p" using assms(1) by (simp add: entry_path_def startsWith_def)
  have f: "final_url ctx p = Inr ?s" using u by (simp add: final_url_def fold_query_def)
  show ?thesis using rewrite_steps [OF False a e] f by simp
qed

theorem prefix_round_trip_witness:
  "urlRewriteFunction ctx_served (Some ''http://localhost/archive/20230101/example.com/x'') () () () =
     Inr (Some ''http://localhost/archive/20230101/example.com/x'')"
proof -
  have p: "prefix ctx_served = ''http'' @ ''://'' @ ''localhost/archive/20230101/''"
    by (simp add: ctx_served_def)
  have c: "parses (current_url ctx_served)" by (rule parses_current_served)
  have s: "serialized (prefix ctx_served @ ''example.com/x'')"
    using serialized_plain by (simp add: ctx_served_def)
  show ?thesis
    using prefix_round_trip [OF reduce_plain scheme_http p c s, of "()" "()" "()"]
    by (simp add: ctx_served_def)
qed

subsection \<open>C6: the query goes into the path\<close>

text \<open>
  C6, as stated, fails in two cases. When the reassembled URL has an opaque path (a
  serving prefix such as \<^verbatim>\<open>x:\<close>), the \<^verbatim>\<open>pathname\<close> setter does nothing and the
  query is lost. When the query is empty (a URL that ends in \<^verbatim>\<open>?\<close>, as rule 3
  leaves it), \<^verbatim>\<open>search\<close> is the empty string, nothing is folded, and the URL returned
  still ends in \<^verbatim>\<open>?\<close>.
\<close>

theorem query_folding_counterexample:
  "urlRewriteFunction (ctx_served\<lparr>prefix := ''x:''\<rparr>) (Some ''http://h/a?b=1'') () () () =
     Inr (Some ''x:h/a'') \<and>
   urlRewriteFunction ctx_served (Some ''/img/a.png?123'') () () () =
     Inr (Some ''http://localhost/archive/20230101/example.com/img/a.png?'')"
  using rewrite_steps [OF pass_opaque abs_opaque, of _ "()" "()" "()"]
    rewrite_steps [OF pass_served_png abs_served_png, of _ "()" "()" "()"]
  by (simp add: entry_opaque reduce_opaque final_opaque entry_served_png reduce_png final_served_png)

text \<open>
  C6, amended. Whenever the reassembled URL, the serving prefix followed by the reduced
  path, parses to a URL whose \<^verbatim>\<open>search\<close> is not empty and whose path is not opaque,
  the URL returned has an empty \<^verbatim>\<open>search\<close> and a path that ends in
  \<^verbatim>\<open>encodeURIComponent\<close> of the whole query string, its \<^verbatim>\<open>?\<close> included.
\<close>

theorem query_folding:
  assumes "URL_new (prefix ctx @ r) None = Inr u" "search u \<noteq> []" "\<not> has_opaque_path u"
  shows "final_url ctx r = Inr (href (fold_query u)) \<and>
         search (fold_query u) = [] \<and>
         (\<exists>x. pathname (fold_query u) = x @ encodeURIComponent (search u)) \<and>
         (\<not> passthrough ctx s \<and> absolute_url ctx s = Inr a \<and> reduce (entry_path ctx a) = r \<longrightarrow>
            urlRewriteFunction ctx (Some s) useRel mod' doc = Inr (Some (href (fold_query u))))"
proof -
  have f: "final_url ctx r = Inr (href (fold_query u))" using assms(1) by (simp add: final_url_def)
  have "urlRewriteFunction ctx (Some s) useRel mod' doc = Inr (Some (href (fold_query u)))"
    if "\<not> passthrough ctx s" "absolute_url ctx s = Inr a" "reduce (entry_path ctx a) = r"
    using rewrite_steps [OF that] f by simp
  then show ?thesis using f fold_query_path [OF assms(2,3)] by blast
qed

theorem query_folding_witness:
  "search url_example = ''?a=1&b=2'' \<and>
   search (fold_query url_example) = [] \<and>
   (\<exists>x. pathname (fold_query url_example) = x @ ''%3Fa%3D1%26b%3D2'') \<and>
   urlRewriteFunction ctx_served (Some ''http://localhost/archive/20230101/example.com/x?a=1&b=2'') () () () =
     Inr (Some ''http://localhost/archive/20230101/example.com/x%3Fa%3D1%26b%3D2'')"
proof -
  have ne: "search url_example \<noteq> []" by (simp add: search_example)
  have e: "reduce (entry_path ctx_served ''http://localhost/archive/20230101/example.com/x?a=1&b=2'') =
      ''example.com/x?a=1&b=2''" by (simp add: entry_served_query reduce_query)
  show ?thesis
    using query_folding [OF parse_example ne opaque_example,
        of "''http://localhost/archive/20230101/example.com/x?a=1&b=2''"
           "''http://localhost/archive/20230101/example.com/x?a=1&b=2''" "()" "()" "()"]
      pass_served_query abs_served_query e
    by (simp add: search_example encode_example href_example)
qed

subsection \<open>C7: the inputs returned as they are\<close>

text \<open>
  C7. For every context, \<^verbatim>\<open>null\<close> is returned as \<^verbatim>\<open>null\<close>, every input that
  starts with \<^verbatim>\<open>#\<close> is returned as it is, and every input that starts with the
  original host is returned as it is: nothing is resolved, reduced or prefixed.
\<close>

theorem trivial_passthroughs:
  "urlRewriteFunction ctx None useRel mod' doc = Inr None \<and>
   (startsWith s ''#'' \<longrightarrow> urlRewriteFunction ctx (Some s) useRel mod' doc = Inr (Some s)) \<and>
   (startsWith t (orig_host ctx) \<longrightarrow> urlRewriteFunction ctx (Some t) useRel mod' doc = Inr (Some t))"
  by (auto simp: urlRewriteFunction_def passthrough_prefixes_def)

theorem trivial_passthroughs_witness:
  "startsWith ''#frag'' ''#'' \<and>
   urlRewriteFunction ctx_spec (Some ''#frag'') () () () = Inr (Some ''#frag'') \<and>
   startsWith (orig_host ctx_spec @ ''/x'') (orig_host ctx_spec) \<and>
   urlRewriteFunction ctx_spec (Some (orig_host ctx_spec @ ''/x'')) () () () =
     Inr (Some (orig_host ctx_spec @ ''/x''))"
  using trivial_passthroughs [of ctx_spec "()" "()" "()" "''#frag''" "orig_host ctx_spec @ ''/x''"]
  by (simp add: startsWith_def)

subsection \<open>C8: the absolute URL\<close>

text \<open>
  C8. For every input that is not returned as it is, the rewrite function goes on from
  the absolute URL, which is: for an input that starts with \<^verbatim>\<open>//\<close>, the original
  scheme followed by the input; for another input that starts with \<^verbatim>\<open>/\<close>, the input
  resolved against the original URL; for every other input, the input resolved against
  the current URL. An input that starts with a scheme and \<^verbatim>\<open>://\<close> resolves to the
  same URL as without a base, whatever the current URL is, as long as it parses.
\<close>

theorem absolute_resolution:
  assumes "\<not> passthrough ctx s"
  shows "urlRewriteFunction ctx (Some s) useRel mod' doc =
           (case absolute_url ctx s of
              Inl e \<Rightarrow> Inl e
            | Inr a \<Rightarrow> (case final_url ctx (reduce (entry_path ctx a)) of
                          Inl e \<Rightarrow> Inl e | Inr r \<Rightarrow> Inr (Some r))) \<and>
         (startsWith s ''//'' \<longrightarrow> absolute_url ctx s = Inr (orig_scheme ctx @ s)) \<and>
         (\<not> startsWith s ''//'' \<and> startsWith s ''/'' \<longrightarrow>
            absolute_url ctx s =
              (case URL_new s (Some (orig_url ctx)) of Inl e \<Rightarrow> Inl e | Inr u \<Rightarrow> Inr (href u))) \<and>
         (\<not> startsWith s ''/'' \<longrightarrow>
            absolute_url ctx s =
              (case URL_new s (Some (current_url ctx)) of Inl e \<Rightarrow> Inl e | Inr u \<Rightarrow> Inr (href u))) \<and>
         (is_scheme sch \<and> s = sch @ ''://'' @ rest \<and> parses (current_url ctx) \<longrightarrow>
            absolute_url ctx s =
              (case URL_new s None of Inl e \<Rightarrow> Inl e | Inr u \<Rightarrow> Inr (href u)))"
proof -
  have 1: "urlRewriteFunction ctx (Some s) useRel mod' doc =
           (case absolute_url ctx s of
              Inl e \<Rightarrow> Inl e
            | Inr a \<Rightarrow> (case final_url ctx (reduce (entry_path ctx a)) of
                          Inl e \<Rightarrow> Inl e | Inr r \<Rightarrow> Inr (Some r)))"
    using assms by (auto simp: urlRewriteFunction_def passthrough_def)
  have 2: "startsWith s ''//'' \<longrightarrow> absolute_url ctx s = Inr (orig_scheme ctx @ s)"
    by (simp add: absolute_url_def)
  have 3: "\<not> startsWith s ''//'' \<and> startsWith s ''/'' \<longrightarrow>
            absolute_url ctx s =
              (case URL_new s (Some (orig_url ctx)) of Inl e \<Rightarrow> Inl e | Inr u \<Rightarrow> Inr (href u))"
    by (simp add: absolute_url_def)
  have 4: "\<not> startsWith s ''/'' \<longrightarrow>
            absolute_url ctx s =
              (case URL_new s (Some (current_url ctx)) of Inl e \<Rightarrow> Inl e | Inr u \<Rightarrow> Inr (href u))"
    by (cases s) (auto simp: absolute_url_def startsWith_def)
  have 5: "absolute_url ctx s =
              (case URL_new s None of Inl e \<Rightarrow> Inl e | Inr u \<Rightarrow> Inr (href u))"
    if h: "is_scheme sch" "s = sch @ ''://'' @ rest" "parses (current_url ctx)"
  proof -
    obtain b where b: "URL_new (current_url ctx) None = Inr b"
      using h(3) by (auto simp: parses_def split: sum.splits)
    obtain c cs where sch: "sch = c # cs" "is_alpha c"
      using h(1) by (auto simp: is_scheme_def split: list.splits)
    have "c \<noteq> CHR ''/''" using sch(2) alpha_not_slash by blast
    then have ns: "\<not> startsWith s ''//''" "\<not> startsWith s ''/''"
      unfolding h(2) sch(1) by (simp_all add: startsWith_def)
    have "URL_new s (Some (current_url ctx)) = URL_new s None"
      unfolding h(2) using URL_new_absolute [OF h(1) b] .
    then show ?thesis using ns by (simp add: absolute_url_def)
  qed
  show ?thesis using 1 2 3 4 5 by blast
qed

theorem absolute_resolution_witness:
  "absolute_url ctx_served ''//cdn.example.com/a.js'' = Inr ''https://cdn.example.com/a.js'' \<and>
   absolute_url ctx_served ''/img/a.png'' = Inr ''https://example.com/img/a.png'' \<and>
   absolute_url ctx_served ''img/a.png'' = Inr ''https://example.com/img/a.png'' \<and>
   absolute_url ctx_served ''https://s.ytimg.com/videoplayback?id=abc123&itag=22'' =
     Inr ''https://s.ytimg.com/videoplayback?id=abc123&itag=22'' \<and>
   urlRewriteFunction ctx_served (Some ''//cdn.example.com/a.js'') () () () =
     Inr (Some ''http://localhost/archive/20230101/cdn.example.com/a.js'')"
proof -
  have os: "orig_scheme ctx_served = ''https:''" by (simp add: ctx_served_def ctx_spec_def)
  note a = absolute_resolution [OF pass_served_cdn, of "()" "()" "()" "[]" "[]"]
  note b = absolute_resolution [OF pass_served_root, of "()" "()" "()" "[]" "[]"]
  note c = absolute_resolution [OF pass_served_rel, of "()" "()" "()" "[]" "[]"]
  note d = absolute_resolution [OF pass_served_ytimg, of "()" "()" "()" "''https''"
      "''s.ytimg.com/videoplayback?id=abc123&itag=22''"]
  have a1: "absolute_url ctx_served ''//cdn.example.com/a.js'' = Inr ''https://cdn.example.com/a.js''"
    using a starts_cdn os by simp
  have a2: "urlRewriteFunction ctx_served (Some ''//cdn.example.com/a.js'') () () () =
     Inr (Some ''http://localhost/archive/20230101/cdn.example.com/a.js'')"
    using a by (simp add: a1 entry_served_cdn reduce_cdn final_served_cdn)
  have b1: "absolute_url ctx_served ''/img/a.png'' = Inr ''https://example.com/img/a.png''"
    using b starts_root new_root by simp
  have c1: "absolute_url ctx_served ''img/a.png'' = Inr ''https://example.com/img/a.png''"
    using c starts_rel new_rel by simp
  have d1: "absolute_url ctx_served ''https://s.ytimg.com/videoplayback?id=abc123&itag=22'' =
     Inr ''https://s.ytimg.com/videoplayback?id=abc123&itag=22''"
    using d scheme_https parses_current_served new_abs by simp
  show ?thesis using a1 a2 b1 c1 d1 by simp
qed

subsection \<open>C9: errors\<close>



end
